theory Spec2Isabelle
  imports Complex_Main "HOL-Library.Log_Nat"
begin

section \<open>JavaScript numbers\<close>

text \<open>
  The TypeScript type \<open>number\<close> is IEEE 754 binary64. A finite double is an integer
  multiple of the smallest subnormal \<open>2^-1074\<close>, so \<open>Fin k\<close> stands for the double
  \<open>k * 2^-1074\<close>. The doubles are the \<open>Fin k\<close> whose \<open>k\<close> has at most 53 significant
  bits and a value below \<open>2^1024\<close> in magnitude, together with the two
  infinities and NaN. The two zeros are identified: they are equal under every
  comparison, and no operation of the buffers below tells them apart.
\<close>

datatype number = Fin int | PosInf | NegInf | NaN

text \<open>The value 1 counts \<open>2^1074\<close> units.\<close>

definition ulps :: int where
  "ulps = 2 ^ 1074"

text \<open>Every finite double is below \<open>2^1024\<close> in magnitude.\<close>

definition huge :: int where
  "huge = 2 ^ 1024"

text \<open>\<open>rne p q\<close> is the integer nearest to \<open>p / q\<close> (for \<open>q > 0\<close>), ties to even.\<close>

definition rne :: "int \<Rightarrow> int \<Rightarrow> int" where
  "rne p q =
     (let d = p div q; r = p mod q
      in if 2 * r < q then d
         else if q < 2 * r then d + 1
         else if even d then d else d + 1)"

text \<open>
  \<open>fl p q\<close> rounds the exact value \<open>p / q\<close> (in units of \<open>2^-1074\<close>, \<open>q > 0\<close>) to the
  nearest double: 53 significant bits, ties to even, overflow to an infinity.
\<close>

definition fl :: "int \<Rightarrow> int \<Rightarrow> number" where
  "fl p q =
     (let n = bitlen (\<bar>p\<bar> div q);
          g = 2 ^ nat (n - 53);
          k = rne p (q * g) * g
      in if huge * ulps \<le> k then PosInf
         else if k \<le> - (huge * ulps) then NegInf
         else Fin k)"

text \<open>The double of an integer literal such as \<open>100\<close>.\<close>

definition fromInt :: "int \<Rightarrow> number" where
  "fromInt j = fl (j * ulps) 1"

definition isFinite :: "number \<Rightarrow> bool" where
  "isFinite x = (case x of Fin k \<Rightarrow> True | _ \<Rightarrow> False)"

fun neg :: "number \<Rightarrow> number" where
  "neg (Fin k) = Fin (- k)"
| "neg PosInf = NegInf"
| "neg NegInf = PosInf"
| "neg NaN = NaN"

instantiation number :: "{zero, plus, minus, ord}"
begin

definition zero_number :: number where
  "zero_number = Fin 0"

fun plus_number :: "number \<Rightarrow> number \<Rightarrow> number" where
  "plus_number NaN y = NaN"
| "plus_number x NaN = NaN"
| "plus_number PosInf NegInf = NaN"
| "plus_number NegInf PosInf = NaN"
| "plus_number PosInf y = PosInf"
| "plus_number x PosInf = PosInf"
| "plus_number NegInf y = NegInf"
| "plus_number x NegInf = NegInf"
| "plus_number (Fin a) (Fin b) = fl (a + b) 1"

definition minus_number :: "number \<Rightarrow> number \<Rightarrow> number" where
  "minus_number x y = x + neg y"

fun less_number :: "number \<Rightarrow> number \<Rightarrow> bool" where
  "less_number NaN y = False"
| "less_number x NaN = False"
| "less_number (Fin a) (Fin b) = (a < b)"
| "less_number x NegInf = False"
| "less_number PosInf y = False"
| "less_number NegInf y = True"
| "less_number x PosInf = True"

definition less_eq_number :: "number \<Rightarrow> number \<Rightarrow> bool" where
  "less_eq_number x y = (x < y \<or> (x = y \<and> x \<noteq> NaN))"

instance ..

end

text \<open>
  \<open>div_count x n\<close> is \<open>x / n\<close> for an array length \<open>n\<close> (a non-negative integer below
  \<open>2^53\<close>, hence itself a double).
\<close>

definition div_count :: "number \<Rightarrow> nat \<Rightarrow> number" where
  "div_count x n =
     (case x of
        NaN \<Rightarrow> NaN
      | PosInf \<Rightarrow> PosInf
      | NegInf \<Rightarrow> NegInf
      | Fin k \<Rightarrow>
          if n = 0 then (if 0 < k then PosInf else if k < 0 then NegInf else NaN)
          else fl k (int n))"

section \<open>Samples\<close>

record PriceData =
  price :: number
  timestamp :: number

datatype error = TypeError | RangeError

section \<open>The array-based TimeWindowDeque\<close>

record TimeWindowDeque_array =
  data_arr :: "PriceData list"
  sum_arr :: number
  expiredData_arr :: "PriceData list"

definition arr_new :: TimeWindowDeque_array where
  "arr_new = \<lparr>data_arr = [], sum_arr = 0, expiredData_arr = []\<rparr>"

definition arr_push :: "number \<Rightarrow> number \<Rightarrow> TimeWindowDeque_array \<Rightarrow> TimeWindowDeque_array" where
  "arr_push p t s =
     (let newData = \<lparr>price = p, timestamp = t\<rparr>
      in s\<lparr>data_arr := data_arr s @ [newData], sum_arr := sum_arr s + p\<rparr>)"

function arr_expire :: "number \<Rightarrow> TimeWindowDeque_array \<Rightarrow> TimeWindowDeque_array" where
  "arr_expire cutoff s =
     (case data_arr s of
        [] \<Rightarrow> s
      | removed # rest \<Rightarrow>
          if timestamp removed < cutoff
          then arr_expire cutoff
                 (s\<lparr>data_arr := rest,
                    sum_arr := sum_arr s - price removed,
                    expiredData_arr := expiredData_arr s @ [removed]\<rparr>)
          else s)"
  by pat_completeness auto
termination
  by (relation "measure (\<lambda>(cutoff, s). length (data_arr s))") auto

definition arr_size :: "TimeWindowDeque_array \<Rightarrow> nat" where
  "arr_size s = length (data_arr s)"

definition arr_getSum :: "TimeWindowDeque_array \<Rightarrow> number" where
  "arr_getSum s = sum_arr s"

definition arr_getLatestPrice :: "TimeWindowDeque_array \<Rightarrow> number option" where
  "arr_getLatestPrice s =
     (if length (data_arr s) > 0 then Some (price (data_arr s ! (length (data_arr s) - 1)))
      else None)"

definition arr_getAverage :: "TimeWindowDeque_array \<Rightarrow> number option" where
  "arr_getAverage s =
     (if arr_size s > 0 then Some (div_count (sum_arr s) (arr_size s)) else None)"

definition arr_getHistory :: "TimeWindowDeque_array \<Rightarrow> PriceData list" where
  "arr_getHistory s = data_arr s"

definition arr_getValues :: "TimeWindowDeque_array \<Rightarrow> number list" where
  "arr_getValues s = map price (data_arr s)"

definition arr_getExpiredValues :: "TimeWindowDeque_array \<Rightarrow> PriceData list" where
  "arr_getExpiredValues s = expiredData_arr s"

section \<open>The circular buffer\<close>

text \<open>
  A JavaScript array read outside its length gives \<open>undefined\<close>, and a write there
  extends the array with holes. \<open>None\<close> is \<open>undefined\<close>.

  \<open>new Array(len)\<close> raises a RangeError unless \<open>len\<close> is an integer from 0 to
  \<open>2^32 - 1\<close>; \<open>array_length\<close> is that test, and \<open>new_Array n\<close> is the array of \<open>n\<close>
  holes that an admissible length gives. The constructor takes any number, clamps it
  with \<open>Math.max(1, capacity)\<close>, which is NaN for NaN, and allocates: it raises for a
  capacity that is NaN, infinite, not an integer or above \<open>2^32 - 1\<close>. Where it
  returns, the capacity is a natural number, at least 1, and so are indices and sizes.
  The remainder \<open>%\<close> is taken of non-negative operands by a capacity that is at least
  1 in every state the constructor and the methods produce (part of \<open>cd_abs\<close> below),
  where it agrees with \<open>mod\<close>.

  In \<open>_grow\<close> the length is twice a capacity that the buffer has filled. It is
  inadmissible only when the buffer holds \<open>2^31\<close> live samples or more, which no
  engine's heap does; there the allocation is taken to succeed. Lists are unbounded:
  the exhaustion of memory is outside the model.
\<close>

definition js_max :: "number \<Rightarrow> number \<Rightarrow> number" where
  "js_max x y = (if x = NaN \<or> y = NaN then NaN else if x < y then y else x)"

definition array_length :: "number \<Rightarrow> nat option" where
  "array_length len =
     (case len of
        Fin k \<Rightarrow>
          if k mod ulps = 0 \<and> 0 \<le> k \<and> k div ulps \<le> 4294967295
          then Some (nat (k div ulps)) else None
      | _ \<Rightarrow> None)"

definition new_Array :: "nat \<Rightarrow> 'a option list" where
  "new_Array n = replicate n None"

definition js_get :: "'a option list \<Rightarrow> nat \<Rightarrow> 'a option" where
  "js_get xs i = (if i < length xs then xs ! i else None)"

definition js_set :: "'a option list \<Rightarrow> nat \<Rightarrow> 'a option \<Rightarrow> 'a option list" where
  "js_set xs i v =
     (if i < length xs then xs[i := v]
      else xs @ replicate (i - length xs) None @ [v])"

record 'a CircularDeque =
  buffer :: "'a option list"
  head :: nat
  tail :: nat
  size_cd :: nat
  capacity :: nat

definition cd_new :: "number \<Rightarrow> error + 'a CircularDeque" where
  "cd_new cap =
     (let c = js_max (fromInt 1) cap
      in case array_length c of
           None \<Rightarrow> Inl RangeError
         | Some n \<Rightarrow>
             Inr \<lparr>buffer = new_Array n, head = 0, tail = 0, size_cd = 0, capacity = n\<rparr>)"

definition cd_grow :: "'a CircularDeque \<Rightarrow> 'a CircularDeque" where
  "cd_grow d =
     (let newCapacity = capacity d * 2;
          newBuffer =
            fold (\<lambda>i nb. js_set nb i (js_get (buffer d) ((head d + i) mod capacity d)))
              [0 ..< size_cd d] (new_Array newCapacity)
      in d\<lparr>buffer := newBuffer, head := 0, tail := size_cd d, capacity := newCapacity\<rparr>)"

definition cd_push :: "'a \<Rightarrow> 'a CircularDeque \<Rightarrow> 'a CircularDeque" where
  "cd_push v d =
     (let d1 = (if size_cd d = capacity d then cd_grow d else d);
          d2 = d1\<lparr>buffer := js_set (buffer d1) (tail d1) (Some v)\<rparr>;
          d3 = d2\<lparr>tail := (tail d2 + 1) mod capacity d2\<rparr>
      in d3\<lparr>size_cd := size_cd d3 + 1\<rparr>)"

definition cd_shift :: "'a CircularDeque \<Rightarrow> 'a option \<times> 'a CircularDeque" where
  "cd_shift d =
     (if size_cd d = 0 then (None, d)
      else
        (let v = js_get (buffer d) (head d);
             d1 = d\<lparr>buffer := js_set (buffer d) (head d) None\<rparr>;
             d2 = d1\<lparr>head := (head d1 + 1) mod capacity d1\<rparr>
         in (v, d2\<lparr>size_cd := size_cd d2 - 1\<rparr>)))"

definition cd_peekFirst :: "'a CircularDeque \<Rightarrow> 'a option" where
  "cd_peekFirst d = (if size_cd d = 0 then None else js_get (buffer d) (head d))"

definition cd_peekLast :: "'a CircularDeque \<Rightarrow> 'a option" where
  "cd_peekLast d =
     (if size_cd d = 0 then None
      else
        (let lastIndex = nat ((int (tail d) - 1 + int (capacity d)) mod int (capacity d))
         in js_get (buffer d) lastIndex))"

definition cd_size :: "'a CircularDeque \<Rightarrow> nat" where
  "cd_size d = size_cd d"

definition cd_toArray :: "'a CircularDeque \<Rightarrow> 'a option list" where
  "cd_toArray d =
     fold (\<lambda>i result. result @ [js_get (buffer d) ((head d + i) mod capacity d)])
       [0 ..< size_cd d] []"

section \<open>The circular-buffer TimeWindowDeque\<close>

text \<open>
  The non-null assertions of the source (\<open>shift()!\<close>, \<open>buffer[index]!\<close>) do nothing at
  run time: \<open>toArray\<close> may deliver \<open>undefined\<close> entries, and reading \<open>price\<close> of an
  \<open>undefined\<close> entry raises a TypeError, in \<open>expire\<close> and in \<open>getValues\<close>.
\<close>

record TimeWindowDeque =
  data :: "PriceData CircularDeque"
  sum_tw :: number
  expiredData :: "PriceData list"
  capacity_tw :: number

text \<open>
  The constructor raises what the constructor of the circular buffer raises. (Called
  without an argument it takes the capacity 32.)
\<close>

definition tw_new :: "number \<Rightarrow> error + TimeWindowDeque" where
  "tw_new initialCapacity =
     (let c = js_max (fromInt 1) initialCapacity
      in case cd_new c of
           Inl e \<Rightarrow> Inl e
         | Inr d \<Rightarrow> Inr \<lparr>data = d, sum_tw = 0, expiredData = [], capacity_tw = c\<rparr>)"

definition tw_push :: "number \<Rightarrow> number \<Rightarrow> TimeWindowDeque \<Rightarrow> TimeWindowDeque" where
  "tw_push p t s =
     (let s1 = s\<lparr>data := cd_push \<lparr>price = p, timestamp = t\<rparr> (data s)\<rparr>
      in s1\<lparr>sum_tw := sum_tw s1 + p\<rparr>)"

function tw_expire :: "number \<Rightarrow> TimeWindowDeque \<Rightarrow> error + TimeWindowDeque" where
  "tw_expire cutoff s =
     (if cd_size (data s) > 0 then
        (case cd_peekFirst (data s) of
           None \<Rightarrow> Inr s
         | Some first \<Rightarrow>
             if timestamp first \<ge> cutoff then Inr s
             else
               (case fst (cd_shift (data s)) of
                  None \<Rightarrow> Inl TypeError
                | Some removed \<Rightarrow>
                    tw_expire cutoff
                      (s\<lparr>data := snd (cd_shift (data s)),
                         sum_tw := sum_tw s - price removed,
                         expiredData := expiredData s @ [removed]\<rparr>)))
      else Inr s)"
  by pat_completeness auto
termination
  by (relation "measure (\<lambda>(cutoff, s). size_cd (data s))")
     (auto simp: cd_size_def cd_shift_def Let_def)

definition tw_size :: "TimeWindowDeque \<Rightarrow> nat" where
  "tw_size s = cd_size (data s)"

definition tw_getSum :: "TimeWindowDeque \<Rightarrow> number" where
  "tw_getSum s = sum_tw s"

definition tw_getLatestPrice :: "TimeWindowDeque \<Rightarrow> number option" where
  "tw_getLatestPrice s =
     (case cd_peekLast (data s) of Some lastEntry \<Rightarrow> Some (price lastEntry) | None \<Rightarrow> None)"

definition tw_getAverage :: "TimeWindowDeque \<Rightarrow> number option" where
  "tw_getAverage s =
     (let sz = tw_size s
      in if sz > 0 then Some (div_count (sum_tw s) sz) else None)"

definition tw_getHistory :: "TimeWindowDeque \<Rightarrow> PriceData option list" where
  "tw_getHistory s = cd_toArray (data s)"

fun entry_prices :: "PriceData option list \<Rightarrow> error + number list" where
  "entry_prices [] = Inr []"
| "entry_prices (None # es) = Inl TypeError"
| "entry_prices (Some entry # es) =
     (case entry_prices es of Inl e \<Rightarrow> Inl e | Inr ps \<Rightarrow> Inr (price entry # ps))"

definition tw_getValues :: "TimeWindowDeque \<Rightarrow> error + number list" where
  "tw_getValues s = entry_prices (cd_toArray (data s))"

definition tw_getExpiredValues :: "TimeWindowDeque \<Rightarrow> PriceData list" where
  "tw_getExpiredValues s = expiredData s"

section \<open>Running sequences of operations\<close>

datatype op = Push number number | Expire number

fun arr_apply :: "op \<Rightarrow> TimeWindowDeque_array \<Rightarrow> TimeWindowDeque_array" where
  "arr_apply (Push p t) s = arr_push p t s"
| "arr_apply (Expire c) s = arr_expire c s"

definition arr_run :: "op list \<Rightarrow> TimeWindowDeque_array \<Rightarrow> TimeWindowDeque_array" where
  "arr_run ops s = fold arr_apply ops s"

text \<open>
  \<open>push\<close> has no failing path; \<open>expire\<close> could only fail by dereferencing an
  \<open>undefined\<close> entry. An error ends the run, as the exception would.
\<close>

fun tw_apply :: "op \<Rightarrow> TimeWindowDeque \<Rightarrow> error + TimeWindowDeque" where
  "tw_apply (Push p t) s = Inr (tw_push p t s)"
| "tw_apply (Expire c) s = tw_expire c s"

fun tw_run :: "op list \<Rightarrow> TimeWindowDeque \<Rightarrow> error + TimeWindowDeque" where
  "tw_run [] s = Inr s"
| "tw_run (x # xs) s = (case tw_apply x s of Inl e \<Rightarrow> Inl e | Inr s' \<Rightarrow> tw_run xs s')"

text \<open>A session: construct a buffer with the given initial capacity, then run.\<close>

definition tw_session :: "number \<Rightarrow> op list \<Rightarrow> error + TimeWindowDeque" where
  "tw_session initialCapacity ops =
     (case tw_new initialCapacity of Inl e \<Rightarrow> Inl e | Inr s \<Rightarrow> tw_run ops s)"

section \<open>Notions used in the proofs\<close>

text \<open>Rounding an integer to 53 significant bits.\<close>

definition round53 :: "int \<Rightarrow> int" where
  "round53 j = (let s = nat (bitlen \<bar>j\<bar> - 53) in rne j (2 ^ s) * 2 ^ s)"

text \<open>
  \<open>cd_abs d xs\<close>: the circular buffer \<open>d\<close> is well formed and holds the elements \<open>xs\<close>,
  oldest first.
\<close>

definition cd_abs :: "'a CircularDeque \<Rightarrow> 'a list \<Rightarrow> bool" where
  "cd_abs d xs =
     (1 \<le> capacity d \<and> length (buffer d) = capacity d \<and> head d < capacity d \<and>
      length xs \<le> capacity d \<and> size_cd d = length xs \<and>
      tail d = (head d + length xs) mod capacity d \<and>
      (\<forall>i < length xs. buffer d ! ((head d + i) mod capacity d) = Some (xs ! i)))"

text \<open>
  \<open>evict P a\<close> moves the longest prefix of live samples satisfying \<open>P\<close> to the expired
  history, subtracting their prices from the running sum one by one, oldest first.
\<close>

definition evict :: "(PriceData \<Rightarrow> bool) \<Rightarrow> TimeWindowDeque_array \<Rightarrow> TimeWindowDeque_array" where
  "evict P a =
     a\<lparr>data_arr := dropWhile P (data_arr a),
       sum_arr := foldl (\<lambda>x q. x - price q) (sum_arr a) (takeWhile P (data_arr a)),
       expiredData_arr := expiredData_arr a @ takeWhile P (data_arr a)\<rparr>"

text \<open>The eviction test of the circular-buffer version: not \<open>timestamp >= cutoff\<close>.\<close>

definition stale :: "number \<Rightarrow> PriceData \<Rightarrow> bool" where
  "stale cutoff q = (\<not> cutoff \<le> timestamp q)"

fun ref_apply :: "op \<Rightarrow> TimeWindowDeque_array \<Rightarrow> TimeWindowDeque_array" where
  "ref_apply (Push p t) a = arr_push p t a"
| "ref_apply (Expire c) a = evict (stale c) a"

definition ref_run :: "op list \<Rightarrow> TimeWindowDeque_array \<Rightarrow> TimeWindowDeque_array" where
  "ref_run ops a = fold ref_apply ops a"

text \<open>
  \<open>sim a s\<close>: the circular-buffer state \<open>s\<close> is well formed and holds the live samples,
  the running sum and the expired history of the list state \<open>a\<close>.
\<close>

definition sim :: "TimeWindowDeque_array \<Rightarrow> TimeWindowDeque \<Rightarrow> bool" where
  "sim a s =
     (cd_abs (data s) (data_arr a) \<and> sum_tw s = sum_arr a \<and> expiredData s = expiredData_arr a)"

fun is_push :: "op \<Rightarrow> bool" where
  "is_push (Push p t) = True"
| "is_push (Expire c) = False"

text \<open>The prices pushed by a sequence of operations, in order.\<close>

fun push_values :: "op list \<Rightarrow> number list" where
  "push_values [] = []"
| "push_values (Push p t # ops) = p # push_values ops"
| "push_values (Expire c # ops) = push_values ops"

text \<open>
  \<open>exact_int j\<close> is the number whose value is exactly the integer \<open>j\<close>; \<open>is_int x\<close> says
  that \<open>x\<close> is finite with an integer value, and \<open>int_of x\<close> is that value.
\<close>

definition exact_int :: "int \<Rightarrow> number" where
  "exact_int j = Fin (j * ulps)"

definition is_int :: "number \<Rightarrow> bool" where
  "is_int x = (case x of Fin k \<Rightarrow> k mod ulps = 0 | _ \<Rightarrow> False)"

definition int_of :: "number \<Rightarrow> int" where
  "int_of x = (case x of Fin k \<Rightarrow> k div ulps | _ \<Rightarrow> 0)"

text \<open>The full scan: the values added up from 0, left to right, in double arithmetic.\<close>

definition scan_sum :: "number list \<Rightarrow> number" where
  "scan_sum vs = foldl (+) 0 vs"

text \<open>The sum invariant of a state: \<open>getSum()\<close> is the full-scan sum of \<open>getValues()\<close>.\<close>

definition sum_invariant :: "TimeWindowDeque \<Rightarrow> bool" where
  "sum_invariant s =
     (case tw_getValues s of Inl e \<Rightarrow> False | Inr vs \<Rightarrow> tw_getSum s = scan_sum vs)"

text \<open>
  \<open>exact_state a r\<close>: the live prices are integers, the running sum is their exact sum,
  and their magnitudes leave room for \<open>r\<close> more below \<open>2^53\<close>.
\<close>

definition exact_state :: "TimeWindowDeque_array \<Rightarrow> int \<Rightarrow> bool" where
  "exact_state a r =
     ((\<forall>q \<in> set (data_arr a). is_int (price q)) \<and>
      sum_arr a = exact_int (\<Sum>q\<leftarrow>data_arr a. int_of (price q)) \<and>
      0 \<le> r \<and> (\<Sum>q\<leftarrow>data_arr a. \<bar>int_of (price q)\<bar>) + r < 2 ^ 53)"

text \<open>
  What a caller can observe of a buffer. The array-based version returns its history
  entries and values directly; they are embedded in the result types of the
  circular-buffer version, whose entries may be \<open>undefined\<close> at run time.
\<close>

record observation =
  obs_size :: nat
  obs_sum :: number
  obs_latest :: "number option"
  obs_average :: "number option"
  obs_history :: "PriceData option list"
  obs_values :: "error + number list"
  obs_expired :: "PriceData list"

definition tw_observe :: "TimeWindowDeque \<Rightarrow> observation" where
  "tw_observe s =
     \<lparr>obs_size = tw_size s, obs_sum = tw_getSum s, obs_latest = tw_getLatestPrice s,
      obs_average = tw_getAverage s, obs_history = tw_getHistory s,
      obs_values = tw_getValues s, obs_expired = tw_getExpiredValues s\<rparr>"

definition arr_observe :: "TimeWindowDeque_array \<Rightarrow> observation" where
  "arr_observe a =
     \<lparr>obs_size = arr_size a, obs_sum = arr_getSum a, obs_latest = arr_getLatestPrice a,
      obs_average = arr_getAverage a, obs_history = map Some (arr_getHistory a),
      obs_values = Inr (arr_getValues a), obs_expired = arr_getExpiredValues a\<rparr>"

fun no_NaN :: "op \<Rightarrow> bool" where
  "no_NaN (Push p t) = (t \<noteq> NaN)"
| "no_NaN (Expire c) = (c \<noteq> NaN)"


text \<open>
  Calls on a buffer, with their results: the two mutators and the seven queries. Each
  method takes the state and returns its result with the state it leaves.
\<close>

datatype query = Size | GetSum | GetLatestPrice | GetAverage | GetHistory | GetValues
  | GetExpiredValues

datatype answer = Void | Count nat | Num number | MaybeNum "number option"
  | History "PriceData option list" | Values "number list" | ExpiredHistory "PriceData list"

datatype call = Mutate op | Ask query

fun tw_query :: "query \<Rightarrow> TimeWindowDeque \<Rightarrow> error + answer \<times> TimeWindowDeque" where
  "tw_query Size s = Inr (Count (tw_size s), s)"
| "tw_query GetSum s = Inr (Num (tw_getSum s), s)"
| "tw_query GetLatestPrice s = Inr (MaybeNum (tw_getLatestPrice s), s)"
| "tw_query GetAverage s = Inr (MaybeNum (tw_getAverage s), s)"
| "tw_query GetHistory s = Inr (History (tw_getHistory s), s)"
| "tw_query GetValues s =
     (case tw_getValues s of Inl e \<Rightarrow> Inl e | Inr vs \<Rightarrow> Inr (Values vs, s))"
| "tw_query GetExpiredValues s = Inr (ExpiredHistory (tw_getExpiredValues s), s)"

fun tw_call :: "call \<Rightarrow> TimeWindowDeque \<Rightarrow> error + answer \<times> TimeWindowDeque" where
  "tw_call (Mutate x) s = (case tw_apply x s of Inl e \<Rightarrow> Inl e | Inr s' \<Rightarrow> Inr (Void, s'))"
| "tw_call (Ask q) s = tw_query q s"

definition prepend :: "answer \<Rightarrow> error + answer list \<times> TimeWindowDeque
    \<Rightarrow> error + answer list \<times> TimeWindowDeque" where
  "prepend a r = (case r of Inl e \<Rightarrow> Inl e | Inr (as, t) \<Rightarrow> Inr (a # as, t))"

fun tw_calls :: "call list \<Rightarrow> TimeWindowDeque \<Rightarrow> error + answer list \<times> TimeWindowDeque" where
  "tw_calls [] s = Inr ([], s)"
| "tw_calls (c # cs) s =
     (case tw_call c s of Inl e \<Rightarrow> Inl e | Inr (a, s') \<Rightarrow> prepend a (tw_calls cs s'))"

declare arr_expire.simps [simp del]

declare tw_expire.simps [simp del]

section \<open>Facts about rounding\<close>

lemma ulps_pos: "0 < ulps"
  by (simp add: ulps_def)

lemma rne_scale: "0 < c \<Longrightarrow> rne (a * c) (b * c) = rne a b"
  by (simp add: rne_def Let_def mult.assoc[symmetric] mult_less_cancel_right)

lemma rne_one: "rne j 1 = j"
  by (simp add: rne_def)

lemma huge_pos: "0 < huge"
  by (simp add: huge_def)

lemma scaled_le: "(a * ulps \<le> b * ulps) = (a \<le> b)"
  using ulps_pos by (simp add: mult_le_cancel_right)

lemma scaled_le_neg: "(a * ulps \<le> - (b * ulps)) = (a \<le> - b)"
  using scaled_le[of a "- b"] by simp

lemma fromInt_round53:
  "fromInt j =
     (let r = round53 j
      in if huge \<le> r then PosInf else if r \<le> - huge then NegInf
         else Fin (r * ulps))"
proof (cases "j = 0")
  case True
  then show ?thesis
    using ulps_pos huge_pos
    by (simp add: fromInt_def fl_def round53_def rne_one Let_def zero_less_mult_iff not_le)
next
  case False
  define b where "b = bitlen \<bar>j\<bar>"
  define e :: nat where "e = 1074"
  have ue: "ulps = 2 ^ e"
    by (simp only: ulps_def e_def)
  have bl: "bitlen (\<bar>j\<bar> * ulps) = b + int e"
    unfolding ue b_def using False by (simp only: bitlen_pow2) 
  have bpos: "1 \<le> b"
    using False bitlen_eq_zero_iff[of "\<bar>j\<bar>"] bitlen_nonneg[of "\<bar>j\<bar>"] unfolding b_def by linarith
  show ?thesis
  proof (cases "53 \<le> b")
    case True
    define s where "s = nat (b - 53)"
    have n: "nat (b + int e - 53) = s + e"
      using True by (simp add: s_def e_def)
    have g: "(2::int) ^ nat (b + int e - 53) = 2 ^ s * ulps"
      by (simp only: n ue power_add)
    have "fl (j * ulps) 1 =
        (let k = rne j (2 ^ s) * 2 ^ s * ulps
         in if huge * ulps \<le> k then PosInf else if k \<le> - (huge * ulps) then NegInf else Fin k)"
      unfolding fl_def using ulps_pos
      by (simp add: abs_mult bl g rne_scale Let_def mult.assoc)
    then show ?thesis
      by (simp add: fromInt_def round53_def Let_def b_def[symmetric] s_def[symmetric]
          scaled_le scaled_le_neg)
  next
    case False
    define t where "t = nat (53 - b)"
    define g :: int where "g = 2 ^ nat (b + int e - 53)"
    have gpos: "0 < g" by (simp add: g_def)
    have n: "e = t + nat (b + int e - 53)"
      using False bpos by (simp add: t_def e_def)
    have u: "ulps = 2 ^ t * g"
      unfolding g_def ue power_add[symmetric] using n by simp
    have r: "rne (j * ulps) (1 * g) = j * 2 ^ t"
      using rne_scale[OF gpos, of "j * 2 ^ t" 1] by (simp add: u rne_one mult.assoc)
    have jb: "\<bar>j\<bar> < 2 ^ 53"
    proof -
      have "\<bar>j\<bar> < 2 ^ nat b" using bitlen_bounds[of "\<bar>j\<bar>"] \<open>j \<noteq> 0\<close> by (simp add: b_def)
      also have "\<dots> \<le> 2 ^ 53" using False by (intro power_increasing) auto
      finally show ?thesis .
    qed
    have jh: "\<bar>j\<bar> < huge"
      unfolding huge_def using jb by (rule less_trans) simp
    have k: "fl (j * ulps) 1 = Fin (j * ulps)"
    proof -
      have "rne (j * ulps) (1 * g) * g = (j * 2 ^ t) * g" by (simp only: r)
      also have "\<dots> = j * ulps" by (simp only: u mult.assoc)
      finally have "rne (j * ulps) (1 * g) * g = j * ulps" .
      moreover have "\<not> huge * ulps \<le> j * ulps" "\<not> j * ulps \<le> - (huge * ulps)"
        using jh by (auto simp: scaled_le scaled_le_neg)
      ultimately show ?thesis
        unfolding fl_def using ulps_pos by (simp add: abs_mult bl g_def[symmetric] Let_def) 
    qed
    have "round53 j = j"
      using False by (simp add: round53_def b_def[symmetric] rne_one)
    moreover have "\<not> huge \<le> j" "\<not> j \<le> - huge"
      using jh by auto
    ultimately show ?thesis by (simp add: fromInt_def k Let_def)
  qed
qed

lemma round53_small: "\<bar>j\<bar> < 2 ^ 53 \<Longrightarrow> round53 j = j"
proof -
  assume a: "\<bar>j\<bar> < 2 ^ 53"
  have "bitlen \<bar>j\<bar> \<le> 53"
    using a bitlen_le_iff_power[of "\<bar>j\<bar>" 53] by simp
  then show ?thesis by (simp add: round53_def rne_one)
qed

lemma fromInt_small: "\<bar>j\<bar> < 2 ^ 53 \<Longrightarrow> fromInt j = Fin (j * ulps)"
proof -
  assume a: "\<bar>j\<bar> < 2 ^ 53"
  have "\<bar>j\<bar> < huge" unfolding huge_def using a by (rule less_trans) simp
  then have "\<not> huge \<le> j" "\<not> j \<le> - huge" by auto
  then show ?thesis by (simp add: fromInt_round53 round53_small[OF a] Let_def)
qed

lemma Fin_plus: "Fin (a * ulps) + Fin (b * ulps) = fromInt (a + b)"
  by (simp add: fromInt_def distrib_right)

lemma Fin_minus: "Fin (a * ulps) - Fin (b * ulps) = fromInt (a - b)"
  by (simp add: minus_number_def fromInt_def left_diff_distrib)

section \<open>The circular buffer holds a queue\<close>

lemma fold_snoc_map: "fold (\<lambda>i r. r @ [f i]) xs acc = acc @ map f xs"
  by (induction xs arbitrary: acc) auto

lemma cd_toArray_map:
  "cd_toArray d = map (\<lambda>i. js_get (buffer d) ((head d + i) mod capacity d)) [0 ..< size_cd d]"
  by (simp add: cd_toArray_def fold_snoc_map)

lemma fold_js_set:
  "n \<le> length nb \<Longrightarrow>
   fold (\<lambda>i b. js_set b i (f i)) [0 ..< n] nb = map f [0 ..< n] @ drop n nb"
proof (induction n)
  case 0
  then show ?case by simp
next
  case (Suc n)
  then have n: "n < length nb" by simp
  have "js_set (map f [0 ..< n] @ drop n nb) n (f n) = map f [0 ..< n] @ (drop n nb)[0 := f n]"
    using n by (simp add: js_set_def list_update_append)
  also have "(drop n nb)[0 := f n] = f n # drop (Suc n) nb"
    using n by (simp add: Cons_nth_drop_Suc[symmetric])
  finally show ?case using Suc by simp
qed

lemma mod_shift_inj_le:
  fixes h i j c :: nat
  assumes "i \<le> j" "j < c" "(h + i) mod c = (h + j) mod c"
  shows "i = j"
proof (rule ccontr)
  assume "i \<noteq> j"
  with assms have pos: "0 < j - i" and lt: "j - i < c" by auto
  have "(h + j) mod c = (h + i) mod c" using assms by simp
  then have "c dvd (h + j) - (h + i)"
    using assms(1) by (subst (asm) mod_eq_dvd_iff_nat) auto
  then have "c dvd j - i" by simp
  with pos lt show False using nat_dvd_not_less by blast
qed

lemma mod_shift_inj:
  fixes h i j c :: nat
  assumes "i < c" "j < c" "(h + i) mod c = (h + j) mod c"
  shows "i = j"
proof (cases "i \<le> j")
  case True
  then show ?thesis using assms mod_shift_inj_le by blast
next
  case False
  then have "j \<le> i" by simp
  then show ?thesis using assms mod_shift_inj_le[of j i c h] by simp
qed

lemma cd_abs_toArray: "cd_abs d xs \<Longrightarrow> cd_toArray d = map Some xs"
  by (auto simp: cd_abs_def cd_toArray_map js_get_def intro!: nth_equalityI)

lemma js_set_in: "i < length b \<Longrightarrow> js_set b i v = b[i := v]"
  by (simp add: js_set_def)

lemma array_length_clamped:
  assumes "array_length (js_max (fromInt 1) cap) = Some n"
  shows "1 \<le> n"
proof -
  have one: "fromInt 1 = Fin ulps" using fromInt_small[of 1] by simp
  have unit: "ulps div ulps = 1" using ulps_pos by simp
  show ?thesis
  proof (cases "Fin ulps < cap")
    case True
    then obtain k where k: "cap = Fin k" "ulps < k"
      using assms by (cases cap) (auto simp: js_max_def one array_length_def)
    then have "1 \<le> k div ulps"
      using zdiv_mono1[of ulps k ulps] ulps_pos unit by simp
    then show ?thesis
      using assms k by (auto simp: js_max_def one array_length_def split: if_splits)
  next
    case False
    then show ?thesis
      using assms unit by (auto simp: js_max_def one array_length_def split: if_splits)
  qed
qed

lemma cd_abs_new: "cd_new c = Inr d \<Longrightarrow> cd_abs d []"
  using array_length_clamped[of c]
  by (auto simp: cd_abs_def cd_new_def new_Array_def Let_def split: option.splits)

lemma cd_abs_size: "cd_abs d xs \<Longrightarrow> cd_size d = length xs"
  by (simp add: cd_abs_def cd_size_def)

lemma cd_abs_grow: "cd_abs d xs \<Longrightarrow> cd_abs (cd_grow d) xs"
  by (simp add: cd_abs_def cd_grow_def Let_def fold_js_set new_Array_def js_get_def nth_append)

lemma cd_abs_peekFirst:
  "cd_abs d xs \<Longrightarrow> cd_peekFirst d = (case xs of [] \<Rightarrow> None | x # _ \<Rightarrow> Some x)"
  by (auto simp: cd_abs_def cd_peekFirst_def js_get_def split: list.splits)

lemma cd_abs_store:
  assumes "cd_abs d xs" "length xs < capacity d"
  shows "cd_abs (d\<lparr>buffer := js_set (buffer d) (tail d) (Some v),
                   tail := (tail d + 1) mod capacity d,
                   size_cd := size_cd d + 1\<rparr>) (xs @ [v])"
proof -
  let ?c = "capacity d" and ?h = "head d" and ?n = "length xs"
  let ?t = "(?h + ?n) mod ?c"
  from assms have inv: "0 < ?c" "length (buffer d) = ?c" "?h < ?c" "size_cd d = ?n"
      "tail d = ?t"
      "\<And>i. i < ?n \<Longrightarrow> buffer d ! ((?h + i) mod ?c) = Some (xs ! i)"
    by (auto simp: cd_abs_def)
  have tl: "?t < length (buffer d)" using inv by simp
  have t': "(?t + 1) mod ?c = (?h + (?n + 1)) mod ?c"
    by (simp add: mod_Suc_eq)
  have el: "(buffer d)[?t := Some v] ! ((?h + i) mod ?c) = Some ((xs @ [v]) ! i)"
    if "i < ?n + 1" for i
  proof (cases "i = ?n")
    case True
    then show ?thesis using tl by simp
  next
    case False
    with that have i: "i < ?n" by simp
    then have "(?h + i) mod ?c \<noteq> ?t"
      using mod_shift_inj[of i ?c ?n ?h] assms(2) by auto
    then show ?thesis using i inv(6) by (simp add: nth_append)
  qed
  have "cd_abs (d\<lparr>buffer := (buffer d)[?t := Some v], tail := (?t + 1) mod ?c,
                  size_cd := ?n + 1\<rparr>) (xs @ [v])"
    unfolding cd_abs_def using inv(1-3) assms(2) el t' by simp
  then show ?thesis
    by (simp add: inv(4,5) js_set_in[OF tl])
qed

lemma cd_abs_push: "cd_abs d xs \<Longrightarrow> cd_abs (cd_push v d) (xs @ [v])"
proof -
  assume a: "cd_abs d xs"
  show ?thesis
  proof (cases "size_cd d = capacity d")
    case True
    have g: "cd_abs (cd_grow d) xs" using a by (rule cd_abs_grow)
    have "length xs < capacity (cd_grow d)"
      using a True by (auto simp: cd_abs_def cd_grow_def Let_def)
    from cd_abs_store[OF g this, of v] show ?thesis
      using True by (simp add: cd_push_def Let_def)
  next
    case False
    then have "length xs < capacity d" using a by (auto simp: cd_abs_def)
    from cd_abs_store[OF a this, of v] show ?thesis
      using False by (simp add: cd_push_def Let_def)
  qed
qed

lemma cd_abs_shift:
  assumes "cd_abs d (x # xs)"
  shows "fst (cd_shift d) = Some x \<and> cd_abs (snd (cd_shift d)) xs"
proof -
  let ?c = "capacity d" and ?h = "head d" and ?n = "length xs"
  let ?h' = "(?h + 1) mod ?c"
  from assms have inv: "0 < ?c" "length (buffer d) = ?c" "?h < ?c" "size_cd d = Suc ?n"
      "tail d = (?h + Suc ?n) mod ?c" "Suc ?n \<le> ?c"
      "\<And>i. i < Suc ?n \<Longrightarrow> buffer d ! ((?h + i) mod ?c) = Some ((x # xs) ! i)"
    by (auto simp: cd_abs_def)
  have hl: "?h < length (buffer d)" using inv by simp
  have hd: "buffer d ! ?h = Some x" using inv(7)[of 0] inv(3) by simp
  have el: "(buffer d)[?h := None] ! ((?h' + i) mod ?c) = Some (xs ! i)"
    if "i < ?n" for i
  proof -
    have e: "(?h' + i) mod ?c = (?h + Suc i) mod ?c"
      by (simp add: mod_add_left_eq)
    have "(?h + Suc i) mod ?c \<noteq> (?h + 0) mod ?c"
      using mod_shift_inj[of "Suc i" ?c 0 ?h] that inv(6) inv(1) by auto
    then have ne: "(?h + Suc i) mod ?c \<noteq> ?h" using inv(3) by simp
    have "buffer d ! ((?h + Suc i) mod ?c) = Some (xs ! i)"
      using inv(7)[of "Suc i"] that by simp
    then have "(buffer d)[?h := None] ! ((?h + Suc i) mod ?c) = Some (xs ! i)"
      using ne by (simp del: add_Suc_right)
    then show ?thesis unfolding e .
  qed
  have t: "(?h + Suc ?n) mod ?c = (?h' + ?n) mod ?c"
    by (simp add: mod_add_left_eq)
  have h': "?h' < ?c" using inv(1) by simp
  have "cd_abs (d\<lparr>buffer := (buffer d)[?h := None], head := ?h', size_cd := ?n\<rparr>) xs"
    unfolding cd_abs_def using inv(1,2,5,6) h' el t by simp
  moreover have "size_cd d \<noteq> 0" using inv(4) by simp
  ultimately show ?thesis
    using hd hl by (simp add: cd_shift_def Let_def js_get_def js_set_in inv(4))
qed

lemma cd_abs_peekLast:
  assumes "cd_abs d xs"
  shows "cd_peekLast d = (if xs = [] then None else Some (last xs))"
proof (cases "xs = []")
  case True
  then show ?thesis using assms by (simp add: cd_abs_def cd_peekLast_def)
next
  case False
  let ?c = "capacity d" and ?h = "head d" and ?n = "length xs"
  from assms have inv: "1 \<le> ?c" "length (buffer d) = ?c" "?h < ?c" "size_cd d = ?n"
      "tail d = (?h + ?n) mod ?c" "?n \<le> ?c"
      "\<And>i. i < ?n \<Longrightarrow> buffer d ! ((?h + i) mod ?c) = Some (xs ! i)"
    by (auto simp: cd_abs_def)
  have n: "0 < ?n" using False by simp
  have "(int (tail d) - 1 + int ?c) mod int ?c = int ((?h + (?n - 1)) mod ?c)"
  proof -
    have "(int (tail d) - 1 + int ?c) mod int ?c = (int (tail d) - 1) mod int ?c"
      by simp
    also have "\<dots> = (int ((?h + ?n) mod ?c) - 1) mod int ?c" by (simp add: inv(5))
    also have "\<dots> = (int (?h + ?n) - 1) mod int ?c"
      by (simp add: zmod_int mod_diff_left_eq)
    also have "int (?h + ?n) - 1 = int (?h + (?n - 1))" using n by linarith
    finally show ?thesis by (simp add: zmod_int)
  qed
  then have li: "nat ((int (tail d) - 1 + int ?c) mod int ?c) = (?h + (?n - 1)) mod ?c"
    by simp
  have lastel: "buffer d ! ((?h + (?n - 1)) mod ?c) = Some (xs ! (?n - 1))"
    by (rule inv(7)) (use n in simp)
  have lt: "(?h + (?n - 1)) mod ?c < length (buffer d)"
    using inv(1,2) by simp
  have sz: "size_cd d \<noteq> 0" using n inv(4) by simp
  have "cd_peekLast d = js_get (buffer d) (nat ((int (tail d) - 1 + int ?c) mod int ?c))"
    unfolding cd_peekLast_def Let_def using sz by (simp only: if_False)
  also have "\<dots> = js_get (buffer d) ((?h + (?n - 1)) mod ?c)"
    by (simp only: li)
  also have "\<dots> = buffer d ! ((?h + (?n - 1)) mod ?c)"
    unfolding js_get_def using lt by (simp only: if_True)
  also have "\<dots> = Some (xs ! (?n - 1))"
    by (rule lastel)
  also have "\<dots> = Some (last xs)"
    using False by (simp add: last_conv_nth)
  finally show ?thesis using False by simp
qed

section \<open>The circular-buffer version simulates a list of live samples\<close>

lemma arr_expire_evict: "arr_expire c a = evict (\<lambda>q. timestamp q < c) a"
proof (induction c a rule: arr_expire.induct)
  case (1 cutoff s)
  show ?case
  proof (cases "data_arr s")
    case Nil
    then show ?thesis by (simp add: arr_expire.simps[of cutoff s] evict_def)
  next
    case (Cons removed rest)
    show ?thesis
    proof (cases "timestamp removed < cutoff")
      case True
      with Cons 1 show ?thesis
        by (simp add: arr_expire.simps[of cutoff s] evict_def)
    next
      case False
      with Cons show ?thesis by (simp add: arr_expire.simps[of cutoff s] evict_def)
    qed
  qed
qed

lemma sim_new: "tw_new cap = Inr s \<Longrightarrow> sim arr_new s"
  by (auto simp: sim_def arr_new_def tw_new_def Let_def cd_abs_new split: sum.splits)

lemma sim_push: "sim a s \<Longrightarrow> sim (arr_push p t a) (tw_push p t s)"
  by (simp add: sim_def arr_push_def tw_push_def Let_def cd_abs_push)

lemma sim_expire: "sim a s \<Longrightarrow> \<exists>s'. tw_expire c s = Inr s' \<and> sim (evict (stale c) a) s'"
proof (induction "data_arr a" arbitrary: a s)
  case Nil
  then have "cd_size (data s) = 0"
    using cd_abs_size[of "data s" "data_arr a"] by (simp add: sim_def)
  then have "tw_expire c s = Inr s" by (simp add: tw_expire.simps[of c s])
  moreover have "evict (stale c) a = a" using Nil(1)[symmetric] by (simp add: evict_def)
  ultimately show ?case using Nil by simp
next
  case (Cons x xs)
  from Cons(2)[symmetric] Cons(3) have ab: "cd_abs (data s) (x # xs)"
    by (simp add: sim_def)
  have sz: "cd_size (data s) > 0" using ab by (simp add: cd_abs_size)
  have pf: "cd_peekFirst (data s) = Some x" using cd_abs_peekFirst[OF ab] by simp
  note sh = cd_abs_shift[OF ab]
  show ?case
  proof (cases "c \<le> timestamp x")
    case True
    then have "tw_expire c s = Inr s" using sz pf by (simp add: tw_expire.simps[of c s])
    moreover have "evict (stale c) a = a"
      using Cons(2)[symmetric] True by (simp add: evict_def stale_def)
    ultimately show ?thesis using Cons(3) by simp
  next
    case False
    let ?a' = "a\<lparr>data_arr := xs, sum_arr := sum_arr a - price x,
                  expiredData_arr := expiredData_arr a @ [x]\<rparr>"
    let ?s' = "s\<lparr>data := snd (cd_shift (data s)), sum_tw := sum_tw s - price x,
                  expiredData := expiredData s @ [x]\<rparr>"
    have step: "tw_expire c s = tw_expire c ?s'"
      using sz pf sh False by (simp add: tw_expire.simps[of c s])
    have "sim ?a' ?s'" using Cons(3) sh by (simp add: sim_def)
    moreover have "xs = data_arr ?a'" by simp
    ultimately obtain s'' where r: "tw_expire c ?s' = Inr s''" "sim (evict (stale c) ?a') s''"
      using Cons(1)[of ?a' ?s'] by blast
    have "evict (stale c) a = evict (stale c) ?a'"
      using Cons(2)[symmetric] False by (simp add: evict_def stale_def)
    then show ?thesis using step r by simp
  qed
qed

lemma sim_apply: "sim a s \<Longrightarrow> \<exists>s'. tw_apply x s = Inr s' \<and> sim (ref_apply x a) s'"
  by (cases x) (auto simp: sim_push sim_expire)

lemma sim_run: "sim a s \<Longrightarrow> \<exists>s'. tw_run ops s = Inr s' \<and> sim (ref_run ops a) s'"
proof (induction ops arbitrary: a s)
  case Nil
  then show ?case by (simp add: ref_run_def)
next
  case (Cons x ops)
  from sim_apply[OF Cons(2), of x] obtain s1 where
    s1: "tw_apply x s = Inr s1" "sim (ref_apply x a) s1" by blast
  from Cons(1)[OF s1(2)] obtain s' where
    "tw_run ops s1 = Inr s'" "sim (ref_run ops (ref_apply x a)) s'" by blast
  then show ?case using s1 by (simp add: ref_run_def)
qed

lemma entry_prices_Some: "entry_prices (map Some xs) = Inr (map price xs)"
  by (induction xs) auto

lemma sim_size: "sim a s \<Longrightarrow> tw_size s = arr_size a"
  by (simp add: sim_def tw_size_def arr_size_def cd_abs_size)

lemma sim_getSum: "sim a s \<Longrightarrow> tw_getSum s = arr_getSum a"
  by (simp add: sim_def tw_getSum_def arr_getSum_def)

lemma sim_getLatestPrice: "sim a s \<Longrightarrow> tw_getLatestPrice s = arr_getLatestPrice a"
  by (auto simp: sim_def tw_getLatestPrice_def arr_getLatestPrice_def cd_abs_peekLast
      last_conv_nth)

lemma sim_getAverage: "sim a s \<Longrightarrow> tw_getAverage s = arr_getAverage a"
  by (simp add: tw_getAverage_def arr_getAverage_def sim_size Let_def) (simp add: sim_def)

lemma sim_getHistory: "sim a s \<Longrightarrow> tw_getHistory s = map Some (arr_getHistory a)"
  using cd_abs_toArray[of "data s" "data_arr a"]
  by (simp add: sim_def tw_getHistory_def arr_getHistory_def)

lemma sim_getValues: "sim a s \<Longrightarrow> tw_getValues s = Inr (arr_getValues a)"
  using cd_abs_toArray[of "data s" "data_arr a"]
  by (simp add: sim_def tw_getValues_def arr_getValues_def entry_prices_Some)

lemma sim_getExpiredValues: "sim a s \<Longrightarrow> tw_getExpiredValues s = arr_getExpiredValues a"
  by (simp add: sim_def tw_getExpiredValues_def arr_getExpiredValues_def)

section \<open>Reachable states\<close>

lemma ref_run_Cons: "ref_run (x # ops) a = ref_run ops (ref_apply x a)"
  by (simp add: ref_run_def)

lemma ref_run_pushes:
  "data_arr (ref_run (map (\<lambda>(v, t). Push v t) samples) a) =
     data_arr a @ map (\<lambda>(v, t). \<lparr>price = v, timestamp = t\<rparr>) samples"
proof (induction samples arbitrary: a)
  case Nil
  then show ?case by (simp add: ref_run_def)
next
  case (Cons x samples)
  then show ?case by (cases x) (simp add: ref_run_Cons arr_push_def Let_def)
qed

lemma reachable:
  "tw_new cap = Inr s0 \<Longrightarrow> \<exists>s. tw_session cap ops = Inr s \<and> sim (ref_run ops arr_new) s"
  using sim_run[OF sim_new, of cap s0 ops] by (simp add: tw_session_def)

lemma session_sim: "tw_session cap ops = Inr s \<Longrightarrow> sim (ref_run ops arr_new) s"
proof -
  assume a: "tw_session cap ops = Inr s"
  then obtain s0 where "tw_new cap = Inr s0"
    by (auto simp: tw_session_def split: sum.splits)
  from reachable[OF this, of ops] a show ?thesis by simp
qed

lemma session_snoc:
  "tw_session cap ops = Inr s \<Longrightarrow> tw_session cap (ops @ rest) = tw_run rest s"
proof -
  have run: "tw_run xs s0 = Inr s1 \<Longrightarrow> tw_run (xs @ rest) s0 = tw_run rest s1" for xs s0 s1
    by (induction xs arbitrary: s0) (auto split: sum.splits)
  assume "tw_session cap ops = Inr s"
  then show ?thesis
    by (auto simp: tw_session_def run split: sum.splits)
qed

lemma evict_empty: "data_arr a = [] \<Longrightarrow> evict P a = a"
  by (simp add: evict_def)

lemma ref_apply_count:
  "length (data_arr (ref_apply x a)) + length (expiredData_arr (ref_apply x a)) =
     length (data_arr a) + length (expiredData_arr a) + (if is_push x then 1 else 0)"
proof (cases x)
  case (Push p t)
  then show ?thesis by (simp add: arr_push_def Let_def)
next
  case (Expire c)
  have "length (takeWhile (stale c) (data_arr a)) + length (dropWhile (stale c) (data_arr a)) =
      length (data_arr a)"
    by (simp add: length_append[symmetric] del: length_append)
  then show ?thesis using Expire by (simp add: evict_def)
qed

lemma ref_run_count:
  "length (data_arr (ref_run ops a)) + length (expiredData_arr (ref_run ops a)) =
     length (data_arr a) + length (expiredData_arr a) + length (filter is_push ops)"
proof (induction ops arbitrary: a)
  case Nil
  then show ?case by (simp add: ref_run_def)
next
  case (Cons x ops)
  show ?case
    unfolding ref_run_Cons Cons.IH ref_apply_count by simp
qed

lemma ref_run_no_push:
  "filter is_push ops = [] \<Longrightarrow> data_arr a = [] \<Longrightarrow> ref_run ops a = a"
proof (induction ops)
  case Nil
  then show ?case by (simp add: ref_run_def)
next
  case (Cons x ops)
  then show ?case
    by (cases x) (auto simp: ref_run_Cons evict_empty split: if_splits)
qed

lemma ref_run_untouched:
  assumes "data_arr (ref_run ops arr_new) = []" "expiredData_arr (ref_run ops arr_new) = []"
  shows "ref_run ops arr_new = arr_new"
proof -
  have "length (filter is_push ops) = 0"
    using ref_run_count[of ops arr_new] assms by (simp add: arr_new_def)
  then show ?thesis
    using ref_run_no_push[of ops arr_new] by (simp add: arr_new_def)
qed


section \<open>Exact integer arithmetic\<close>

lemma is_int_exact: "is_int x \<Longrightarrow> x = exact_int (int_of x)"
  by (cases x) (auto simp: is_int_def int_of_def exact_int_def)

lemma int_of_exact: "int_of (exact_int j) = j"
  using ulps_pos by (simp add: int_of_def exact_int_def)

lemma is_int_exact_int: "is_int (exact_int j)"
  by (simp add: is_int_def exact_int_def)

lemma zero_exact: "(0::number) = exact_int 0"
  by (simp add: zero_number_def exact_int_def)

lemma exact_plus: "exact_int a + exact_int b = fromInt (a + b)"
  unfolding exact_int_def by (rule Fin_plus)

lemma exact_minus: "exact_int a - exact_int b = fromInt (a - b)"
  unfolding exact_int_def by (rule Fin_minus)

lemma fromInt_exact: "\<bar>j\<bar> < 2 ^ 53 \<Longrightarrow> fromInt j = exact_int j"
  unfolding exact_int_def by (rule fromInt_small)

lemma fromInt_rounded:
  "\<bar>round53 j\<bar> < huge \<Longrightarrow> fromInt j = exact_int (round53 j)"
  by (auto simp: fromInt_round53 Let_def exact_int_def)

lemma exact_int_inj: "(exact_int a = exact_int b) = (a = b)"
  using ulps_pos by (simp add: exact_int_def)

lemma exact_less: "(exact_int a < exact_int b) = (a < b)"
  using ulps_pos by (simp add: exact_int_def mult_less_cancel_right)

lemma exact_le: "(exact_int a \<le> exact_int b) = (a \<le> b)"
  by (auto simp: less_eq_number_def exact_less exact_int_inj) (simp add: exact_int_def)

lemma abs_sum_list_le: "\<bar>sum_list (xs :: int list)\<bar> \<le> sum_list (map abs xs)"
  by (rule sum_list_abs)

lemma scan_exact:
  assumes "\<forall>v \<in> set vs. is_int v" "\<bar>A\<bar> + (\<Sum>v\<leftarrow>vs. \<bar>int_of v\<bar>) < 2 ^ 53"
  shows "foldl (+) (exact_int A) vs = exact_int (A + (\<Sum>v\<leftarrow>vs. int_of v))"
  using assms
proof (induction vs arbitrary: A)
  case Nil
  then show ?case by simp
next
  case (Cons v vs)
  then have v: "v = exact_int (int_of v)" by (simp add: is_int_exact)
  have b: "\<bar>A + int_of v\<bar> + (\<Sum>v\<leftarrow>vs. \<bar>int_of v\<bar>) < 2 ^ 53"
    using Cons(3) by simp
  have nn: "0 \<le> (\<Sum>v\<leftarrow>vs. \<bar>int_of v\<bar>)" by (rule sum_list_nonneg) auto
  have "exact_int A + v = fromInt (A + int_of v)"
    by (subst v) (rule exact_plus)
  also have "\<dots> = exact_int (A + int_of v)"
    using b nn by (intro fromInt_exact) linarith
  finally have "foldl (+) (exact_int A) (v # vs) = foldl (+) (exact_int (A + int_of v)) vs"
    by simp
  also have "\<dots> = exact_int (A + int_of v + (\<Sum>v\<leftarrow>vs. int_of v))"
    using Cons(2) b by (intro Cons.IH) auto
  finally show ?case by (simp add: add.assoc)
qed

lemma scan_sum_exact:
  assumes "\<forall>v \<in> set vs. is_int v" "(\<Sum>v\<leftarrow>vs. \<bar>int_of v\<bar>) < 2 ^ 53"
  shows "scan_sum vs = exact_int (\<Sum>v\<leftarrow>vs. int_of v)"
  using scan_exact[of vs 0] assms by (simp add: scan_sum_def zero_exact)

lemma abs_prices_le:
  "\<bar>\<Sum>q\<leftarrow>xs. int_of (price q)\<bar> \<le> (\<Sum>q\<leftarrow>xs. \<bar>int_of (price q)\<bar>)"
  using sum_list_abs[of "map (\<lambda>q. int_of (price q)) xs"] by (simp add: comp_def)

lemma exact_state_push:
  assumes "exact_state a (\<bar>int_of v\<bar> + r)" "is_int v" "0 \<le> r"
  shows "exact_state (arr_push v t a) r"
proof -
  let ?S = "\<Sum>q\<leftarrow>data_arr a. int_of (price q)"
  let ?T = "\<Sum>q\<leftarrow>data_arr a. \<bar>int_of (price q)\<bar>"
  from assms(1) have inv: "\<forall>q \<in> set (data_arr a). is_int (price q)"
      "sum_arr a = exact_int ?S" "?T + (\<bar>int_of v\<bar> + r) < 2 ^ 53"
    by (auto simp: exact_state_def)
  have v: "v = exact_int (int_of v)" using assms(2) by (rule is_int_exact)
  have "\<bar>?S\<bar> \<le> ?T" by (rule abs_prices_le)
  then have small: "\<bar>?S + int_of v\<bar> < 2 ^ 53" using inv(3) assms(3) by linarith
  have "sum_arr a + v = fromInt (?S + int_of v)"
    unfolding inv(2) by (subst v) (rule exact_plus)
  also have "\<dots> = exact_int (?S + int_of v)" using small by (rule fromInt_exact)
  finally have "sum_arr a + v = exact_int (?S + int_of v)" .
  then show ?thesis
    using inv assms(2,3) by (simp add: exact_state_def arr_push_def Let_def add.assoc)
qed

lemma evict_step:
  "data_arr a = x # xs \<Longrightarrow> P x \<Longrightarrow>
   evict P a = evict P (a\<lparr>data_arr := xs, sum_arr := sum_arr a - price x,
                           expiredData_arr := expiredData_arr a @ [x]\<rparr>)"
  by (simp add: evict_def)

lemma evict_stop: "data_arr a = x # xs \<Longrightarrow> \<not> P x \<Longrightarrow> evict P a = a"
  by (simp add: evict_def)

lemma exact_state_drop:
  assumes "exact_state a r" "data_arr a = x # xs"
  shows "exact_state (a\<lparr>data_arr := xs, sum_arr := sum_arr a - price x,
                        expiredData_arr := expiredData_arr a @ [x]\<rparr>) r"
proof -
  let ?S = "\<Sum>q\<leftarrow>xs. int_of (price q)"
  let ?T = "\<Sum>q\<leftarrow>xs. \<bar>int_of (price q)\<bar>"
  from assms have inv: "is_int (price x)" "\<forall>q \<in> set xs. is_int (price q)"
      "sum_arr a = exact_int (int_of (price x) + ?S)" "0 \<le> r"
      "\<bar>int_of (price x)\<bar> + ?T + r < 2 ^ 53"
    by (auto simp: exact_state_def)
  have x: "price x = exact_int (int_of (price x))" using inv(1) by (rule is_int_exact)
  have "\<bar>?S\<bar> \<le> ?T" by (rule abs_prices_le)
  then have small: "\<bar>?S\<bar> < 2 ^ 53" using inv(4,5) by linarith
  have "sum_arr a - price x = fromInt (int_of (price x) + ?S - int_of (price x))"
    unfolding inv(3) by (subst (2) x) (rule exact_minus)
  also have "\<dots> = exact_int ?S" using small by (simp add: fromInt_exact)
  finally have "sum_arr a - price x = exact_int ?S" .
  then show ?thesis
    using inv by (simp add: exact_state_def)
qed

lemma exact_state_evict: "exact_state a r \<Longrightarrow> exact_state (evict P a) r"
proof (induction "data_arr a" arbitrary: a)
  case Nil
  then show ?case by (simp add: evict_empty)
next
  case (Cons x xs)
  show ?case
  proof (cases "P x")
    case True
    let ?a' = "a\<lparr>data_arr := xs, sum_arr := sum_arr a - price x,
                  expiredData_arr := expiredData_arr a @ [x]\<rparr>"
    have "exact_state ?a' r" using Cons(3) Cons(2)[symmetric] by (rule exact_state_drop)
    moreover have "xs = data_arr ?a'" by simp
    ultimately have "exact_state (evict P ?a') r" by (rule Cons(1)[rotated])
    
    moreover have "evict P a = evict P ?a'"
      using Cons(2)[symmetric] True by (rule evict_step)
    ultimately show ?thesis by simp
  next
    case False
    have "evict P a = a" using Cons(2)[symmetric] False by (rule evict_stop)
    then show ?thesis using Cons(3) by simp
  qed
qed

lemma exact_state_run:
  assumes "\<forall>v \<in> set (push_values ops). is_int v"
    "exact_state a (\<Sum>v\<leftarrow>push_values ops. \<bar>int_of v\<bar>)"
  shows "exact_state (ref_run ops a) 0"
  using assms
proof (induction ops arbitrary: a)
  case Nil
  then show ?case by (simp add: ref_run_def)
next
  case (Cons x ops)
  have nn: "0 \<le> (\<Sum>v\<leftarrow>push_values ops. \<bar>int_of v\<bar>)" by (rule sum_list_nonneg) auto
  show ?case
  proof (cases x)
    case (Push p t)
    with Cons(2,3) nn have "exact_state (arr_push p t a) (\<Sum>v\<leftarrow>push_values ops. \<bar>int_of v\<bar>)"
      by (intro exact_state_push) auto
    then show ?thesis using Cons(1)[of "arr_push p t a"] Cons(2) Push
      by (simp add: ref_run_Cons)
  next
    case (Expire c)
    with Cons(3) have "exact_state (evict (stale c) a) (\<Sum>v\<leftarrow>push_values ops. \<bar>int_of v\<bar>)"
      by (simp add: exact_state_evict)
    then show ?thesis using Cons(1)[of "evict (stale c) a"] Cons(2) Expire
      by (simp add: ref_run_Cons)
  qed
qed

lemma round53_0: "round53 0 = 0"
  by (simp add: round53_def rne_def)

lemma round53_1: "round53 1 = 1"
  by (simp add: round53_small)

lemma round53_2p53: "round53 9007199254740992 = 9007199254740992"
  by (simp add: round53_def rne_def compute_bitlen Let_def)

lemma round53_2p53_1: "round53 9007199254740993 = 9007199254740992"
  by (simp add: round53_def rne_def compute_bitlen Let_def)

lemma fromInt_2p53: "fromInt 9007199254740992 = exact_int 9007199254740992"
  by (simp add: fromInt_rounded round53_2p53 huge_def)

lemma absorbed: "fromInt 9007199254740992 + fromInt 1 = fromInt 9007199254740992"
  by (simp add: fromInt_2p53 fromInt_exact exact_plus fromInt_rounded round53_2p53_1 huge_def)

text \<open>A quotient that is an integer is delivered exactly.\<close>

lemma fl_scale: "0 < n \<Longrightarrow> fl (p * n) (q * n) = fl p q"
proof -
  assume n: "0 < n"
  have d: "\<bar>p * n\<bar> div (q * n) = \<bar>p\<bar> div q"
    using n by (simp add: abs_mult)
  have r: "rne (p * n) (q * n * g) = rne p (q * g)" for g
    using rne_scale[OF n, of p "q * g"] by (simp add: mult.assoc mult.left_commute mult.commute)
  show ?thesis
    unfolding fl_def d r ..
qed

lemma div_count_exact:
  assumes "0 < n" "\<bar>m\<bar> < 2 ^ 53"
  shows "div_count (exact_int (m * int n)) n = exact_int m"
proof -
  have "div_count (exact_int (m * int n)) n = fl (m * ulps * int n) (1 * int n)"
    using assms(1) by (simp add: div_count_def exact_int_def mult.assoc mult.left_commute mult.commute)
  also have "\<dots> = fl (m * ulps) 1"
    using assms(1) by (intro fl_scale) simp
  also have "\<dots> = exact_int m"
    using fromInt_exact[OF assms(2)] by (simp add: fromInt_def)
  finally show ?thesis .
qed

text \<open>The constructor on integer capacities.\<close>

lemma js_max_exact: "js_max (exact_int a) (exact_int b) = exact_int (max a b)"
  by (auto simp: js_max_def exact_less max_def) (simp_all add: exact_int_def)

lemma array_length_exact:
  "0 \<le> m \<Longrightarrow> m \<le> 4294967295 \<Longrightarrow> array_length (exact_int m) = Some (nat m)"
  using ulps_pos by (simp add: array_length_def exact_int_def zero_le_mult_iff)

lemma array_length_too_long:
  "4294967295 < m \<Longrightarrow> array_length (exact_int m) = None"
  using ulps_pos by (simp add: array_length_def exact_int_def)

lemma tw_new_int:
  assumes "- (2 ^ 53) < j" "j \<le> 4294967295"
  shows "tw_new (fromInt j) =
     Inr \<lparr>data = \<lparr>buffer = new_Array (nat (max 1 j)), head = 0, tail = 0, size_cd = 0,
                    capacity = nat (max 1 j)\<rparr>,
          sum_tw = 0, expiredData = [], capacity_tw = exact_int (max 1 j)\<rparr>"
proof -
  have j: "fromInt j = exact_int j" using assms by (intro fromInt_exact) simp
  have one: "fromInt 1 = exact_int 1" by (simp add: fromInt_exact)
  have "array_length (exact_int (max 1 j)) = Some (nat (max 1 j))"
    using assms(2) by (intro array_length_exact) simp_all
  then show ?thesis
    by (simp add: tw_new_def cd_new_def Let_def j one js_max_exact)
qed

lemma constructs: "- (2 ^ 53) < j \<Longrightarrow> j \<le> 4294967295 \<Longrightarrow> \<exists>s0. tw_new (fromInt j) = Inr s0"
  using tw_new_int by blast

lemma constructor_raises:
  "tw_new (fromInt 4294967296) = Inl RangeError" "tw_new NaN = Inl RangeError"
  "tw_new PosInf = Inl RangeError" "tw_new (Fin (5 * (ulps div 2))) = Inl RangeError"
proof -
  have one: "fromInt 1 = exact_int 1" by (simp add: fromInt_exact)
  show "tw_new (fromInt 4294967296) = Inl RangeError"
    by (simp add: tw_new_def cd_new_def Let_def one fromInt_exact js_max_exact
        array_length_too_long)
  show "tw_new NaN = Inl RangeError"
    by (simp add: tw_new_def cd_new_def Let_def js_max_def array_length_def)
  have inf: "js_max (fromInt 1) PosInf = PosInf"
    by (simp add: js_max_def one exact_int_def)
  show "tw_new PosInf = Inl RangeError"
    by (simp add: tw_new_def cd_new_def Let_def inf) (simp add: js_max_def array_length_def)
  define h where "h = ulps div 2"
  have u: "ulps = 2 * h" by (simp add: h_def ulps_def)
  have h: "0 < h" using ulps_pos u by simp
  have "(5 * h) mod (2 * h) = (5 mod 2) * h"
    by (rule mod_mult_mult2)
  then have "(5 * h) mod ulps \<noteq> 0" using h by (simp add: u)
  then have frac: "array_length (Fin (5 * h)) = None"
    by (simp add: array_length_def)
  have "ulps < 5 * h" using h by (simp add: u)
  then have mx: "js_max (fromInt 1) (Fin (5 * h)) = Fin (5 * h)"
    by (simp add: js_max_def one exact_int_def)
  show "tw_new (Fin (5 * (ulps div 2))) = Inl RangeError"
    unfolding h_def[symmetric] by (simp only: tw_new_def cd_new_def Let_def mx frac) simp
qed

text \<open>
  The constructor returns exactly when the larger of 1 and the capacity is an admissible
  array length.
\<close>

lemma constructor_returns_iff:
  "(\<exists>s0. tw_new cap = Inr s0) \<longleftrightarrow> array_length (js_max (fromInt 1) cap) \<noteq> None"
proof -
  have idem: "js_max (fromInt 1) (js_max (fromInt 1) cap) = js_max (fromInt 1) cap"
    by (cases cap) (auto simp: js_max_def)
  show ?thesis
    by (auto simp: tw_new_def cd_new_def Let_def idem split: option.splits)
qed

section \<open>Comparing numbers\<close>

lemma number_not_le: "x \<noteq> NaN \<Longrightarrow> y \<noteq> NaN \<Longrightarrow> (\<not> x \<le> y) = (y < x)"
  by (cases x; cases y) (auto simp: less_eq_number_def)

lemma number_le_trans: "(x::number) \<le> y \<Longrightarrow> y \<le> z \<Longrightarrow> x \<le> z"
  by (cases x; cases y; cases z) (auto simp: less_eq_number_def)

lemma number_less_le_trans: "(x::number) < y \<Longrightarrow> y \<le> z \<Longrightarrow> x < z"
  by (cases x; cases y; cases z) (auto simp: less_eq_number_def)


lemma sim_observe: "sim a s \<Longrightarrow> tw_observe s = arr_observe a"
  by (simp add: tw_observe_def arr_observe_def sim_size sim_getSum sim_getLatestPrice
      sim_getAverage sim_getHistory sim_getValues sim_getExpiredValues)

lemma evict_cong:
  "(\<And>q. q \<in> set (data_arr a) \<Longrightarrow> P q = Q q) \<Longrightarrow> evict P a = evict Q a"
proof -
  assume h: "\<And>q. q \<in> set (data_arr a) \<Longrightarrow> P q = Q q"
  have "takeWhile P (data_arr a) = takeWhile Q (data_arr a)"
    using h by (intro takeWhile_cong) auto
  moreover have "dropWhile P (data_arr a) = dropWhile Q (data_arr a)"
    using h by (intro dropWhile_cong) auto
  ultimately show ?thesis by (simp add: evict_def)
qed

lemma ref_apply_arr:
  assumes "\<forall>q \<in> set (data_arr a). timestamp q \<noteq> NaN" "no_NaN x"
  shows "ref_apply x a = arr_apply x a \<and> (\<forall>q \<in> set (data_arr (ref_apply x a)). timestamp q \<noteq> NaN)"
proof (cases x)
  case (Push p t)
  then show ?thesis using assms by (auto simp: arr_push_def Let_def)
next
  case (Expire c)
  have "evict (stale c) a = evict (\<lambda>q. timestamp q < c) a"
    using assms Expire by (intro evict_cong) (simp add: stale_def number_not_le)
  moreover have "\<forall>q \<in> set (data_arr (evict (stale c) a)). timestamp q \<noteq> NaN"
    using assms(1) by (auto simp: evict_def dest: set_dropWhileD)
  ultimately show ?thesis using Expire by (simp add: arr_expire_evict)
qed

lemma ref_run_arr:
  assumes "\<forall>q \<in> set (data_arr a). timestamp q \<noteq> NaN" "list_all no_NaN ops"
  shows "ref_run ops a = arr_run ops a"
  using assms
proof (induction ops arbitrary: a)
  case Nil
  then show ?case by (simp add: ref_run_def arr_run_def)
next
  case (Cons x ops)
  then have "ref_apply x a = arr_apply x a"
      "\<forall>q \<in> set (data_arr (ref_apply x a)). timestamp q \<noteq> NaN"
    using ref_apply_arr[of a x] by auto
  then show ?case using Cons(1)[of "ref_apply x a"] Cons(3)
    by (simp add: ref_run_Cons arr_run_def)
qed

section \<open>When the loop of expire stops\<close>








lemma arr_expire_twice:
  "arr_expire c (arr_expire c a) = arr_expire c a \<and>
   (c' \<le> c \<longrightarrow> arr_expire c' (arr_expire c a) = arr_expire c a)"
proof -
  let ?P = "\<lambda>q. timestamp q < c"
  have stop: "evict Q (evict ?P a) = evict ?P a"
    if "\<And>q. \<not> timestamp q < c \<Longrightarrow> \<not> Q q" for Q
  proof (cases "dropWhile ?P (data_arr a)")
    case Nil
    then have "data_arr (evict ?P a) = []" by (simp add: evict_def)
    then show ?thesis by (rule evict_empty)
  next
    case (Cons x xs)
    then have "\<not> ?P x" using hd_dropWhile[of ?P "data_arr a"] by auto
    then have "\<not> Q x" by (rule that)
    moreover have "data_arr (evict ?P a) = x # xs" using Cons by (simp add: evict_def)
    ultimately show ?thesis using evict_stop by blast
  qed
  have a1: "evict ?P (evict ?P a) = evict ?P a"
    by (rule stop) simp
  have a2: "evict (\<lambda>q. timestamp q < c') (evict ?P a) = evict ?P a" if le: "c' \<le> c"
  proof (rule stop)
    fix q
    assume "\<not> timestamp q < c"
    then show "\<not> timestamp q < c'" using le number_less_le_trans by blast
  qed
  show ?thesis using a1 a2 by (simp add: arr_expire_evict)
qed

section \<open>What expire keeps and what it evicts\<close>

lemma kept_after_cutoff:
  assumes "sorted_wrt (\<lambda>p q. timestamp p \<le> timestamp q) xs"
  shows "list_all (\<lambda>q. c \<le> timestamp q) (dropWhile (stale c) xs)"
proof (cases "dropWhile (stale c) xs")
  case Nil
  then show ?thesis by (simp only: list.pred_inject)
next
  case (Cons h ys)
  then have h: "c \<le> timestamp h"
    using hd_dropWhile[of "stale c" xs] by (auto simp: stale_def)
  have "sorted_wrt (\<lambda>p q. timestamp p \<le> timestamp q) (dropWhile (stale c) xs)"
    using assms by (simp add: dropWhile_eq_drop sorted_wrt_drop)
  then have "\<forall>q \<in> set ys. timestamp h \<le> timestamp q" using Cons by simp
  then have "\<forall>q \<in> set ys. c \<le> timestamp q" using h number_le_trans by blast
  then show ?thesis using Cons h by (simp add: list_all_iff)
qed

lemma evicted_before_cutoff:
  assumes "c \<noteq> NaN" "list_all (\<lambda>q. timestamp q \<noteq> NaN) xs"
  shows "list_all (\<lambda>q. timestamp q < c) (takeWhile (stale c) xs)"
proof -
  have "timestamp q < c" if "q \<in> set (takeWhile (stale c) xs)" for q
  proof -
    from that have "stale c q" "q \<in> set xs"
      by (auto dest: set_takeWhileD)
    then show ?thesis using assms number_not_le[of c "timestamp q"]
      by (auto simp: stale_def list_all_iff)
  qed
  then show ?thesis by (simp add: list_all_iff)
qed

section \<open>Queries\<close>

text \<open>In any state whatever, a query that returns hands back the state it was given.\<close>

lemma query_any_state: "tw_query q s = Inr (a, s') \<Longrightarrow> s' = s"
  by (cases q) (auto split: sum.splits)

section \<open>Concrete runs\<close>

lemma session_int:
  assumes "- (2 ^ 53) < j" "j \<le> 4294967295"
  shows "\<exists>s. tw_session (fromInt j) ops = Inr s \<and> sim (ref_run ops arr_new) s"
proof -
  obtain s0 where "tw_new (fromInt j) = Inr s0" using constructs[OF assms] ..
  then show ?thesis by (rule reachable)
qed

lemma rounding_run:
  "ref_run [Push (fromInt 9007199254740992) (fromInt 0), Push (fromInt 1) (fromInt 1),
            Expire (fromInt 1)] arr_new =
     \<lparr>data_arr = [\<lparr>price = fromInt 1, timestamp = fromInt 1\<rparr>], sum_arr = 0,
      expiredData_arr = [\<lparr>price = fromInt 9007199254740992, timestamp = fromInt 0\<rparr>]\<rparr>"
proof -
  have t: "\<not> fromInt 1 \<le> fromInt 0" "fromInt 1 \<le> fromInt 1"
    by (simp_all add: fromInt_exact exact_le)
  have "(0 + fromInt 9007199254740992 + fromInt 1) - fromInt 9007199254740992 = (0::number)"
    by (simp add: zero_exact fromInt_2p53 fromInt_exact exact_plus exact_minus fromInt_rounded
        round53_2p53_1 round53_2p53 huge_def)
  then show ?thesis
    using t by (simp add: ref_run_def arr_new_def arr_push_def evict_def stale_def Let_def)
qed

lemma NaN_timestamp_circular:
  "ref_run [Push (fromInt 100) NaN, Expire (fromInt 0)] arr_new =
     \<lparr>data_arr = [], sum_arr = (0 + fromInt 100) - fromInt 100,
      expiredData_arr = [\<lparr>price = fromInt 100, timestamp = NaN\<rparr>]\<rparr>"
  by (simp add: ref_run_def arr_new_def arr_push_def evict_def stale_def Let_def
      less_eq_number_def fromInt_exact exact_int_def)

lemma NaN_timestamp_array:
  "arr_run [Push (fromInt 100) NaN, Expire (fromInt 0)] arr_new =
     \<lparr>data_arr = [\<lparr>price = fromInt 100, timestamp = NaN\<rparr>], sum_arr = 0 + fromInt 100,
      expiredData_arr = []\<rparr>"
  by (simp add: arr_run_def arr_new_def arr_push_def arr_expire_evict evict_def Let_def)

lemma NaN_cutoff_run:
  "ref_run [Push (fromInt 100) (fromInt 0), Expire NaN] arr_new =
     \<lparr>data_arr = [], sum_arr = (0 + fromInt 100) - fromInt 100,
      expiredData_arr = [\<lparr>price = fromInt 100, timestamp = fromInt 0\<rparr>]\<rparr>"
  by (simp add: ref_run_def arr_new_def arr_push_def evict_def stale_def Let_def
      less_eq_number_def fromInt_exact exact_int_def)

lemma one_push_run:
  "ref_run [Push p t] arr_new =
     \<lparr>data_arr = [\<lparr>price = p, timestamp = t\<rparr>], sum_arr = 0 + p, expiredData_arr = []\<rparr>"
  by (simp add: ref_run_def arr_new_def arr_push_def Let_def)

lemma three_pushes_run:
  "data_arr (ref_run [Push p1 t1, Push p2 t2, Push p3 t3] arr_new) =
     [\<lparr>price = p1, timestamp = t1\<rparr>, \<lparr>price = p2, timestamp = t2\<rparr>,
      \<lparr>price = p3, timestamp = t3\<rparr>]"
  by (simp add: ref_run_def arr_new_def arr_push_def Let_def)

lemma wrapping_run:
  "data_arr (ref_run [Push (fromInt 10) (fromInt 0), Push (fromInt 20) (fromInt 1),
       Push (fromInt 30) (fromInt 2), Push (fromInt 40) (fromInt 3), Expire (fromInt 1)] arr_new) =
     [\<lparr>price = fromInt 20, timestamp = fromInt 1\<rparr>, \<lparr>price = fromInt 30, timestamp = fromInt 2\<rparr>,
      \<lparr>price = fromInt 40, timestamp = fromInt 3\<rparr>]"
  by (simp add: ref_run_def arr_new_def arr_push_def evict_def stale_def Let_def
      fromInt_exact exact_le)

text \<open>
  The ring of capacity 4 in that run, after one more push: the sample 50 has wrapped
  around to index 0, the oldest sample is at index 1 and the buffer is full. The next
  push grows it: the samples are copied from the head, wrapping around, to the front of
  a buffer of capacity 8.
\<close>

lemma growth_occurs:
  "map_sum id data
     (tw_session (fromInt 4) [Push (fromInt 10) (fromInt 0), Push (fromInt 20) (fromInt 1),
        Push (fromInt 30) (fromInt 2), Push (fromInt 40) (fromInt 3), Expire (fromInt 1),
        Push (fromInt 50) (fromInt 4)]) =
     Inr \<lparr>buffer = [Some \<lparr>price = fromInt 50, timestamp = fromInt 4\<rparr>,
                     Some \<lparr>price = fromInt 20, timestamp = fromInt 1\<rparr>,
                     Some \<lparr>price = fromInt 30, timestamp = fromInt 2\<rparr>,
                     Some \<lparr>price = fromInt 40, timestamp = fromInt 3\<rparr>],
          head = 1, tail = 1, size_cd = 4, capacity = 4\<rparr>"
  "map_sum id data
     (tw_session (fromInt 4) [Push (fromInt 10) (fromInt 0), Push (fromInt 20) (fromInt 1),
        Push (fromInt 30) (fromInt 2), Push (fromInt 40) (fromInt 3), Expire (fromInt 1),
        Push (fromInt 50) (fromInt 4), Push (fromInt 60) (fromInt 5)]) =
     Inr \<lparr>buffer = [Some \<lparr>price = fromInt 20, timestamp = fromInt 1\<rparr>,
                     Some \<lparr>price = fromInt 30, timestamp = fromInt 2\<rparr>,
                     Some \<lparr>price = fromInt 40, timestamp = fromInt 3\<rparr>,
                     Some \<lparr>price = fromInt 50, timestamp = fromInt 4\<rparr>,
                     Some \<lparr>price = fromInt 60, timestamp = fromInt 5\<rparr>,
                     None, None, None],
          head = 0, tail = 5, size_cd = 5, capacity = 8\<rparr>"
proof -
  have nums: "new_Array 4 = [None, None, None, None :: PriceData option]"
    "new_Array 8 = [None, None, None, None, None, None, None, None :: PriceData option]"
    "[0 ..< 4] = [0, 1, 2, 3 :: nat]"
    "\<And>a b c d v (xs :: PriceData option list). (a # b # c # d # xs)[3 := v] = a # b # c # v # xs"
    "\<And>a b c d e v (xs :: PriceData option list).
        (a # b # c # d # e # xs)[4 := v] = a # b # c # d # v # xs"
    "\<And>a b c v (xs :: PriceData option list). (a # b # c # xs)[2 := v] = a # b # v # xs"
    "\<And>a b c d (xs :: PriceData option list). (a # b # c # d # xs) ! 3 = d"
    "\<And>a b c (xs :: PriceData option list). (a # b # c # xs) ! 2 = c"
    by (simp_all add: new_Array_def numeral_eq_Suc upt_rec)
  define s0 where "s0 =
      \<lparr>data = \<lparr>buffer = new_Array 4, head = 0, tail = 0, size_cd = 0, capacity = 4\<rparr>,
       sum_tw = 0, expiredData = [], capacity_tw = exact_int 4\<rparr>"
  have n: "tw_new (fromInt 4) = Inr s0"
    using tw_new_int[of 4] by (simp add: s0_def)
  define s4 where "s4 = tw_push (fromInt 40) (fromInt 3) (tw_push (fromInt 30) (fromInt 2)
      (tw_push (fromInt 20) (fromInt 1) (tw_push (fromInt 10) (fromInt 0) s0)))"
  have d4: "data s4 =
      \<lparr>buffer = [Some \<lparr>price = fromInt 10, timestamp = fromInt 0\<rparr>,
                 Some \<lparr>price = fromInt 20, timestamp = fromInt 1\<rparr>,
                 Some \<lparr>price = fromInt 30, timestamp = fromInt 2\<rparr>,
                 Some \<lparr>price = fromInt 40, timestamp = fromInt 3\<rparr>],
       head = 0, tail = 0, size_cd = 4, capacity = 4\<rparr>"
    by (simp add: s4_def s0_def tw_push_def cd_push_def Let_def js_set_def nums)
  define s3 where "s3 = s4\<lparr>data := snd (cd_shift (data s4)),
      sum_tw := sum_tw s4 - price \<lparr>price = fromInt 10, timestamp = fromInt 0\<rparr>,
      expiredData := expiredData s4 @ [\<lparr>price = fromInt 10, timestamp = fromInt 0\<rparr>]\<rparr>"
  have t: "\<not> fromInt 1 \<le> fromInt 0" "fromInt 1 \<le> fromInt 1"
    by (simp_all add: fromInt_exact exact_le)
  have e1: "tw_expire (fromInt 1) s4 = tw_expire (fromInt 1) s3"
    by (subst tw_expire.simps)
      (simp add: d4 s3_def cd_size_def cd_peekFirst_def cd_shift_def js_get_def Let_def t)
  have d3: "data s3 =
      \<lparr>buffer = [None,
                 Some \<lparr>price = fromInt 20, timestamp = fromInt 1\<rparr>,
                 Some \<lparr>price = fromInt 30, timestamp = fromInt 2\<rparr>,
                 Some \<lparr>price = fromInt 40, timestamp = fromInt 3\<rparr>],
       head = 1, tail = 0, size_cd = 3, capacity = 4\<rparr>"
    by (simp add: s3_def d4 cd_shift_def js_set_def js_get_def Let_def nums)
  have e2: "tw_expire (fromInt 1) s3 = Inr s3"
    by (subst tw_expire.simps)
      (simp add: d3 cd_size_def cd_peekFirst_def js_get_def Let_def t)
  define s5 where "s5 = tw_push (fromInt 50) (fromInt 4) s3"
  have d5: "data s5 =
      \<lparr>buffer = [Some \<lparr>price = fromInt 50, timestamp = fromInt 4\<rparr>,
                 Some \<lparr>price = fromInt 20, timestamp = fromInt 1\<rparr>,
                 Some \<lparr>price = fromInt 30, timestamp = fromInt 2\<rparr>,
                 Some \<lparr>price = fromInt 40, timestamp = fromInt 3\<rparr>],
       head = 1, tail = 1, size_cd = 4, capacity = 4\<rparr>"
    by (simp add: s5_def tw_push_def d3 cd_push_def js_set_def Let_def nums)
  define s6 where "s6 = tw_push (fromInt 60) (fromInt 5) s5"
  have d6: "data s6 =
      \<lparr>buffer = [Some \<lparr>price = fromInt 20, timestamp = fromInt 1\<rparr>,
                 Some \<lparr>price = fromInt 30, timestamp = fromInt 2\<rparr>,
                 Some \<lparr>price = fromInt 40, timestamp = fromInt 3\<rparr>,
                 Some \<lparr>price = fromInt 50, timestamp = fromInt 4\<rparr>,
                 Some \<lparr>price = fromInt 60, timestamp = fromInt 5\<rparr>,
                 None, None, None],
       head = 0, tail = 5, size_cd = 5, capacity = 8\<rparr>"
    by (simp add: s6_def tw_push_def d5 cd_push_def cd_grow_def js_set_def js_get_def Let_def
        nums)
  have r5: "tw_session (fromInt 4) [Push (fromInt 10) (fromInt 0), Push (fromInt 20) (fromInt 1),
        Push (fromInt 30) (fromInt 2), Push (fromInt 40) (fromInt 3), Expire (fromInt 1),
        Push (fromInt 50) (fromInt 4)] = Inr s5"
    by (simp add: tw_session_def n s4_def[symmetric] e1 e2 s5_def)
  have r6: "tw_session (fromInt 4) [Push (fromInt 10) (fromInt 0), Push (fromInt 20) (fromInt 1),
        Push (fromInt 30) (fromInt 2), Push (fromInt 40) (fromInt 3), Expire (fromInt 1),
        Push (fromInt 50) (fromInt 4), Push (fromInt 60) (fromInt 5)] = Inr s6"
    by (simp add: tw_session_def n s4_def[symmetric] e1 e2 s5_def s6_def)
  show "map_sum id data
     (tw_session (fromInt 4) [Push (fromInt 10) (fromInt 0), Push (fromInt 20) (fromInt 1),
        Push (fromInt 30) (fromInt 2), Push (fromInt 40) (fromInt 3), Expire (fromInt 1),
        Push (fromInt 50) (fromInt 4)]) =
     Inr \<lparr>buffer = [Some \<lparr>price = fromInt 50, timestamp = fromInt 4\<rparr>,
                     Some \<lparr>price = fromInt 20, timestamp = fromInt 1\<rparr>,
                     Some \<lparr>price = fromInt 30, timestamp = fromInt 2\<rparr>,
                     Some \<lparr>price = fromInt 40, timestamp = fromInt 3\<rparr>],
          head = 1, tail = 1, size_cd = 4, capacity = 4\<rparr>"
    by (simp add: r5 d5)
  show "map_sum id data
     (tw_session (fromInt 4) [Push (fromInt 10) (fromInt 0), Push (fromInt 20) (fromInt 1),
        Push (fromInt 30) (fromInt 2), Push (fromInt 40) (fromInt 3), Expire (fromInt 1),
        Push (fromInt 50) (fromInt 4), Push (fromInt 60) (fromInt 5)]) =
     Inr \<lparr>buffer = [Some \<lparr>price = fromInt 20, timestamp = fromInt 1\<rparr>,
                     Some \<lparr>price = fromInt 30, timestamp = fromInt 2\<rparr>,
                     Some \<lparr>price = fromInt 40, timestamp = fromInt 3\<rparr>,
                     Some \<lparr>price = fromInt 50, timestamp = fromInt 4\<rparr>,
                     Some \<lparr>price = fromInt 60, timestamp = fromInt 5\<rparr>,
                     None, None, None],
          head = 0, tail = 5, size_cd = 5, capacity = 8\<rparr>"
    by (simp add: r6 d6)
qed

text \<open>
  Two cases of the test suite of the repository, replayed on the model: the average
  of 100 and 200 is 150, and expiring at the timestamp of the second of three samples
  leaves two live samples with sum 203 and one expired sample.
\<close>

lemma test_average:
  "\<exists>s. tw_session (fromInt 4) [Push (fromInt 100) (fromInt 0), Push (fromInt 200) (fromInt 1000)]
          = Inr s \<and> tw_getAverage s = Some (fromInt 150)"
proof -
  let ?ops = "[Push (fromInt 100) (fromInt 0), Push (fromInt 200) (fromInt 1000)]"
  let ?a = "ref_run ?ops arr_new"
  obtain s where s: "tw_session (fromInt 4) ?ops = Inr s" "sim ?a s"
    using session_int[of 4] by auto
  have "sum_arr ?a = exact_int (150 * int 2)"
    by (simp add: ref_run_def arr_push_def arr_new_def Let_def zero_exact fromInt_exact exact_plus)
  moreover have "arr_size ?a = 2"
    by (simp add: ref_run_def arr_push_def arr_new_def Let_def arr_size_def)
  ultimately have "arr_getAverage ?a = Some (exact_int 150)"
    using div_count_exact[of 2 150] by (simp add: arr_getAverage_def)
  then have "tw_getAverage s = Some (fromInt 150)"
    using sim_getAverage[OF s(2)] by (simp add: fromInt_exact)
  with s(1) show ?thesis by blast
qed

lemma test_expiration:
  "\<exists>s. tw_session (fromInt 4) [Push (fromInt 100) (fromInt 1700000000000),
       Push (fromInt 101) (fromInt 1700000030000), Push (fromInt 102) (fromInt 1700000060000),
       Expire (fromInt 1700000030000)] = Inr s \<and>
     tw_size s = 2 \<and> tw_getValues s = Inr [fromInt 101, fromInt 102] \<and>
     tw_getSum s = fromInt 203 \<and>
     tw_getExpiredValues s = [\<lparr>price = fromInt 100, timestamp = fromInt 1700000000000\<rparr>]"
proof -
  let ?ops = "[Push (fromInt 100) (fromInt 1700000000000), Push (fromInt 101) (fromInt 1700000030000),
       Push (fromInt 102) (fromInt 1700000060000), Expire (fromInt 1700000030000)]"
  obtain s where s: "tw_session (fromInt 4) ?ops = Inr s" "sim (ref_run ?ops arr_new) s"
    using session_int[of 4] by auto
  have t: "\<not> fromInt 1700000030000 \<le> fromInt 1700000000000"
      "fromInt 1700000030000 \<le> fromInt 1700000030000"
    by (simp_all add: fromInt_exact exact_le)
  have sm: "(0 + fromInt 100 + fromInt 101 + fromInt 102) - fromInt 100 = fromInt 203"
    by (simp add: zero_exact fromInt_exact exact_plus exact_minus)
  have r: "ref_run ?ops arr_new =
      \<lparr>data_arr = [\<lparr>price = fromInt 101, timestamp = fromInt 1700000030000\<rparr>,
                   \<lparr>price = fromInt 102, timestamp = fromInt 1700000060000\<rparr>],
       sum_arr = fromInt 203,
       expiredData_arr = [\<lparr>price = fromInt 100, timestamp = fromInt 1700000000000\<rparr>]\<rparr>"
    using t sm by (simp add: ref_run_def arr_new_def arr_push_def evict_def stale_def Let_def)
  show ?thesis
    using s(1) sim_size[OF s(2)] sim_getValues[OF s(2)] sim_getSum[OF s(2)]
      sim_getExpiredValues[OF s(2)]
    by (simp add: r arr_size_def arr_getValues_def arr_getSum_def arr_getExpiredValues_def)
qed

section \<open>The claims\<close>

text \<open>
  Claim C1, as amended. When every pushed value is an integer and the magnitudes of all
  pushed values add up to less than \<open>2^53\<close>, then after every sequence of push and
  expire operations \<open>getSum()\<close> is exactly the sum of the live values: it equals the
  full-scan sum of \<open>getValues()\<close>, and both are the exact integer sum. (Without the
  bound an addition may round, and the incrementally kept sum drifts from the scan.)
  The buffer is any that the constructor has returned.
\<close>

theorem sum_invariant_safe_integers:
  assumes "tw_new cap = Inr s0"
    and "list_all is_int (push_values ops)"
    and "(\<Sum>v\<leftarrow>push_values ops. \<bar>int_of v\<bar>) < 2 ^ 53"
  shows "\<exists>s vs. tw_session cap ops = Inr s \<and> tw_getValues s = Inr vs \<and>
           tw_getSum s = scan_sum vs \<and> tw_getSum s = exact_int (\<Sum>v\<leftarrow>vs. int_of v)"
proof -
  let ?a = "ref_run ops arr_new"
  obtain s where s: "tw_session cap ops = Inr s" "sim ?a s"
    using reachable[OF assms(1)] by blast
  have nn: "0 \<le> (\<Sum>v\<leftarrow>push_values ops. \<bar>int_of v\<bar>)" by (rule sum_list_nonneg) auto
  have "exact_state arr_new (\<Sum>v\<leftarrow>push_values ops. \<bar>int_of v\<bar>)"
    using assms(3) nn by (simp add: exact_state_def arr_new_def zero_exact)
  then have ex: "exact_state ?a 0"
    using assms(2) by (intro exact_state_run) (simp_all add: list_all_iff)
  let ?vs = "arr_getValues ?a"
  have ints: "\<forall>v \<in> set ?vs. is_int v"
    using ex by (auto simp: exact_state_def arr_getValues_def)
  have bound: "(\<Sum>v\<leftarrow>?vs. \<bar>int_of v\<bar>) < 2 ^ 53"
    using ex by (simp add: exact_state_def arr_getValues_def comp_def)
  have sum: "tw_getSum s = exact_int (\<Sum>v\<leftarrow>?vs. int_of v)"
    using ex sim_getSum[OF s(2)]
    by (simp add: exact_state_def arr_getValues_def arr_getSum_def comp_def)
  moreover have "scan_sum ?vs = exact_int (\<Sum>v\<leftarrow>?vs. int_of v)"
    using ints bound by (rule scan_sum_exact)
  ultimately show ?thesis
    using s(1) sim_getValues[OF s(2)] by auto
qed

theorem sum_invariant_safe_integers_witness:
  "(\<exists>s0. tw_new (fromInt 4) = Inr s0) \<and>
   list_all is_int (push_values [Push (fromInt 100) (fromInt 0), Push (fromInt 101) (fromInt 1),
        Push (fromInt 102) (fromInt 2), Expire (fromInt 1)]) \<and>
   (\<Sum>v\<leftarrow>push_values [Push (fromInt 100) (fromInt 0), Push (fromInt 101) (fromInt 1),
        Push (fromInt 102) (fromInt 2), Expire (fromInt 1)]. \<bar>int_of v\<bar>) < 2 ^ 53 \<and>
   (\<exists>s vs. tw_session (fromInt 4) [Push (fromInt 100) (fromInt 0), Push (fromInt 101) (fromInt 1),
        Push (fromInt 102) (fromInt 2), Expire (fromInt 1)] = Inr s \<and>
      tw_getValues s = Inr vs \<and> tw_getSum s = scan_sum vs \<and>
      tw_getSum s = exact_int (\<Sum>v\<leftarrow>vs. int_of v))"
proof -
  let ?ops = "[Push (fromInt 100) (fromInt 0), Push (fromInt 101) (fromInt 1),
        Push (fromInt 102) (fromInt 2), Expire (fromInt 1)]"
  obtain s0 where c: "tw_new (fromInt 4) = Inr s0" using constructs[of 4] by auto
  have a: "list_all is_int (push_values ?ops)"
    by (simp add: fromInt_exact is_int_exact_int)
  have b: "(\<Sum>v\<leftarrow>push_values ?ops. \<bar>int_of v\<bar>) < 2 ^ 53"
    by (simp add: fromInt_exact int_of_exact)
  from c have e: "\<exists>s0. tw_new (fromInt 4) = Inr s0" ..
  from sum_invariant_safe_integers[OF c a b] e a b show ?thesis by (intro conjI)
qed

text \<open>
  Claim C1 as stated fails. Push \<open>2^53\<close> at time 0 and \<open>1\<close> at time 1, then expire
  with cutoff 1: the running sum is \<open>(0 + 2^53 + 1) - 2^53\<close>, where the addition
  rounds to \<open>2^53\<close>, so \<open>getSum()\<close> is 0 while the one live value is 1.
\<close>

theorem sum_invariant_counterexample:
  "map_sum id sum_invariant
     (tw_session (fromInt 4) [Push (fromInt 9007199254740992) (fromInt 0),
        Push (fromInt 1) (fromInt 1), Expire (fromInt 1)]) = Inr False \<and>
   map_sum id tw_getSum
     (tw_session (fromInt 4) [Push (fromInt 9007199254740992) (fromInt 0),
        Push (fromInt 1) (fromInt 1), Expire (fromInt 1)]) = Inr 0 \<and>
   map_sum id tw_getValues
     (tw_session (fromInt 4) [Push (fromInt 9007199254740992) (fromInt 0),
        Push (fromInt 1) (fromInt 1), Expire (fromInt 1)]) = Inr (Inr [fromInt 1])"
proof -
  let ?ops = "[Push (fromInt 9007199254740992) (fromInt 0), Push (fromInt 1) (fromInt 1),
              Expire (fromInt 1)]"
  obtain s where s: "tw_session (fromInt 4) ?ops = Inr s" "sim (ref_run ?ops arr_new) s"
    using session_int[of 4] by auto
  have v: "tw_getValues s = Inr [fromInt 1]"
    using sim_getValues[OF s(2)] by (simp add: rounding_run arr_getValues_def)
  have g: "tw_getSum s = 0"
    using sim_getSum[OF s(2)] by (simp add: rounding_run arr_getSum_def)
  have "scan_sum [fromInt 1] = exact_int 1"
    by (simp add: scan_sum_def zero_exact fromInt_exact exact_plus)
  then have "\<not> sum_invariant s"
    by (simp add: sum_invariant_def v g zero_exact exact_int_inj)
  then show ?thesis using s(1) v g by simp
qed

text \<open>
  Claim C2, as amended. Take a reachable buffer whose live samples are in non-decreasing
  timestamp order, none of them with a NaN timestamp, and a cutoff that is not NaN.
  Then \<open>expire(cutoff)\<close> succeeds and splits the live samples into an evicted prefix
  and the remaining suffix: every remaining sample has \<open>timestamp >= cutoff\<close>, every
  evicted one has \<open>timestamp < cutoff\<close>, and the evicted ones are appended to the
  expired history oldest first.
\<close>

theorem expire_postcondition:
  assumes "tw_session cap ops = Inr s"
    and "tw_getHistory s = map Some xs"
    and "sorted_wrt (\<lambda>p q. timestamp p \<le> timestamp q) xs"
    and "cutoff \<noteq> NaN"
    and "list_all (\<lambda>q. timestamp q \<noteq> NaN) xs"
  shows "\<exists>s' ev ys. tw_expire cutoff s = Inr s' \<and> xs = ev @ ys \<and>
           tw_getHistory s' = map Some ys \<and>
           list_all (\<lambda>q. cutoff \<le> timestamp q) ys \<and>
           list_all (\<lambda>q. timestamp q < cutoff) ev \<and>
           tw_getExpiredValues s' = tw_getExpiredValues s @ ev"
proof -
  let ?a = "ref_run ops arr_new"
  have sim: "sim ?a s" using assms(1) by (rule session_sim)
  have "map Some (data_arr ?a) = map Some xs"
    using sim_getHistory[OF sim] assms(2) by (simp add: arr_getHistory_def)
  then have xs: "data_arr ?a = xs" by (simp add: inj_map_eq_map)
  obtain s' where s': "tw_expire cutoff s = Inr s'" "sim (evict (stale cutoff) ?a) s'"
    using sim_expire[OF sim] by blast
  let ?ev = "takeWhile (stale cutoff) xs" and ?ys = "dropWhile (stale cutoff) xs"
  have "xs = ?ev @ ?ys" by simp
  moreover have "tw_getHistory s' = map Some ?ys"
    using sim_getHistory[OF s'(2)] xs by (simp add: arr_getHistory_def evict_def)
  moreover have "list_all (\<lambda>q. cutoff \<le> timestamp q) ?ys"
    using assms(3) by (rule kept_after_cutoff)
  moreover have "list_all (\<lambda>q. timestamp q < cutoff) ?ev"
    using assms(4,5) by (rule evicted_before_cutoff)
  moreover have "tw_getExpiredValues s' = tw_getExpiredValues s @ ?ev"
    using sim_getExpiredValues[OF s'(2)] sim_getExpiredValues[OF sim] xs
    by (simp add: arr_getExpiredValues_def evict_def)
  ultimately show ?thesis using s'(1) by (intro exI[of _ s'] exI[of _ ?ev] exI[of _ ?ys]) simp
qed

theorem expire_postcondition_witness:
  "\<exists>s s' ev ys.
     tw_session (fromInt 4) [Push (fromInt 100) (fromInt 0), Push (fromInt 101) (fromInt 1),
        Push (fromInt 102) (fromInt 2)] = Inr s \<and>
     tw_getHistory s = map Some [\<lparr>price = fromInt 100, timestamp = fromInt 0\<rparr>,
        \<lparr>price = fromInt 101, timestamp = fromInt 1\<rparr>,
        \<lparr>price = fromInt 102, timestamp = fromInt 2\<rparr>] \<and>
     tw_expire (fromInt 1) s = Inr s' \<and>
     [\<lparr>price = fromInt 100, timestamp = fromInt 0\<rparr>,
      \<lparr>price = fromInt 101, timestamp = fromInt 1\<rparr>,
      \<lparr>price = fromInt 102, timestamp = fromInt 2\<rparr>] = ev @ ys \<and>
     tw_getHistory s' = map Some ys \<and>
     list_all (\<lambda>q. fromInt 1 \<le> timestamp q) ys \<and>
     list_all (\<lambda>q. timestamp q < fromInt 1) ev \<and>
     tw_getExpiredValues s' = tw_getExpiredValues s @ ev"
proof -
  let ?ops = "[Push (fromInt 100) (fromInt 0), Push (fromInt 101) (fromInt 1),
        Push (fromInt 102) (fromInt 2)]"
  let ?xs = "[\<lparr>price = fromInt 100, timestamp = fromInt 0\<rparr>,
      \<lparr>price = fromInt 101, timestamp = fromInt 1\<rparr>,
      \<lparr>price = fromInt 102, timestamp = fromInt 2\<rparr>]"
  obtain s where a: "tw_session (fromInt 4) ?ops = Inr s" and sim: "sim (ref_run ?ops arr_new) s"
    using session_int[of 4] by auto
  have b: "tw_getHistory s = map Some ?xs"
    using sim_getHistory[OF sim] by (simp add: arr_getHistory_def three_pushes_run)
  have c: "sorted_wrt (\<lambda>p q. timestamp p \<le> timestamp q) ?xs"
    by (simp add: fromInt_exact exact_le)
  have d: "fromInt 1 \<noteq> NaN" by (simp add: fromInt_exact exact_int_def)
  have e: "list_all (\<lambda>q. timestamp q \<noteq> NaN) ?xs"
    by (simp add: fromInt_exact exact_int_def)
  from expire_postcondition[OF a b c d e] obtain s' ev ys where
    "tw_expire (fromInt 1) s = Inr s' \<and> ?xs = ev @ ys \<and> tw_getHistory s' = map Some ys \<and>
     list_all (\<lambda>q. fromInt 1 \<le> timestamp q) ys \<and> list_all (\<lambda>q. timestamp q < fromInt 1) ev \<and>
     tw_getExpiredValues s' = tw_getExpiredValues s @ ev"
    by (elim exE)
  with a b show ?thesis
    by (intro exI[of _ s] exI[of _ s'] exI[of _ ev] exI[of _ ys]) simp
qed

text \<open>
  Claim C2 as stated fails for a NaN cutoff. One sample with timestamp 0 is trivially in
  order; \<open>expire(NaN)\<close> evicts it, since \<open>0 >= NaN\<close> is false, although \<open>0 < NaN\<close> is
  false as well.
\<close>

theorem expire_postcondition_counterexample:
  "map_sum id tw_getHistory (tw_session (fromInt 4) [Push (fromInt 100) (fromInt 0)]) =
     Inr [Some \<lparr>price = fromInt 100, timestamp = fromInt 0\<rparr>] \<and>
   map_sum id tw_getExpiredValues (tw_session (fromInt 4) [Push (fromInt 100) (fromInt 0)]) =
     Inr [] \<and>
   map_sum id tw_getExpiredValues
     (tw_session (fromInt 4) [Push (fromInt 100) (fromInt 0), Expire NaN]) =
     Inr [\<lparr>price = fromInt 100, timestamp = fromInt 0\<rparr>] \<and>
   \<not> fromInt 0 < NaN"
proof -
  let ?ops = "[Push (fromInt 100) (fromInt 0), Expire NaN]"
  let ?one = "[Push (fromInt 100) (fromInt 0)]"
  obtain s where s: "tw_session (fromInt 4) ?ops = Inr s" "sim (ref_run ?ops arr_new) s"
    using session_int[of 4] by auto
  obtain s0 where s0: "tw_session (fromInt 4) ?one = Inr s0" "sim (ref_run ?one arr_new) s0"
    using session_int[of 4] by auto
  have x: "tw_getExpiredValues s = [\<lparr>price = fromInt 100, timestamp = fromInt 0\<rparr>]"
    using sim_getExpiredValues[OF s(2)] unfolding NaN_cutoff_run
    by (simp add: arr_getExpiredValues_def)
  have h0: "tw_getHistory s0 = [Some \<lparr>price = fromInt 100, timestamp = fromInt 0\<rparr>]"
    using sim_getHistory[OF s0(2)] by (simp add: arr_getHistory_def one_push_run)
  have e0: "tw_getExpiredValues s0 = []"
    using sim_getExpiredValues[OF s0(2)] by (simp add: arr_getExpiredValues_def one_push_run)
  have n: "\<not> fromInt 0 < NaN" by (cases "fromInt 0") simp_all
  show ?thesis
    unfolding s0(1) s(1) using x h0 e0 n by simp
qed

text \<open>
  Claim C3, as amended. When the constructor of the circular-buffer version returns for
  the initial capacity (it does exactly when the larger of 1 and the capacity is an
  integer of at most \<open>2^32 - 1\<close>), and no timestamp passed to push and no cutoff passed
  to expire is NaN, the array-based and the circular-buffer version are observationally
  equivalent: after every sequence of push and expire calls the circular version has
  raised no error and the seven queries give the same results on both.
\<close>

theorem refinement_without_NaN:
  assumes "tw_new cap = Inr s0" and "list_all no_NaN ops"
  shows "\<exists>s. tw_session cap ops = Inr s \<and>
           tw_observe s = arr_observe (arr_run ops arr_new)"
proof -
  obtain s where s: "tw_session cap ops = Inr s" "sim (ref_run ops arr_new) s"
    using reachable[OF assms(1)] by blast
  have "ref_run ops arr_new = arr_run ops arr_new"
    using assms(2) by (intro ref_run_arr) (simp_all add: arr_new_def)
  then show ?thesis using s sim_observe by auto
qed

theorem refinement_without_NaN_witness:
  "(\<exists>s0. tw_new (fromInt 1) = Inr s0) \<and>
   list_all no_NaN [Push (fromInt 100) (fromInt 0), Push (fromInt 101) (fromInt 1),
      Expire (fromInt 1)] \<and>
   (\<exists>s. tw_session (fromInt 1) [Push (fromInt 100) (fromInt 0), Push (fromInt 101) (fromInt 1),
      Expire (fromInt 1)] = Inr s \<and>
     tw_observe s = arr_observe (arr_run [Push (fromInt 100) (fromInt 0),
       Push (fromInt 101) (fromInt 1), Expire (fromInt 1)] arr_new))"
proof -
  obtain s0 where c: "tw_new (fromInt 1) = Inr s0" using constructs[of 1] by auto
  have n: "fromInt 0 \<noteq> NaN" "fromInt 1 \<noteq> NaN"
    by (simp_all add: fromInt_exact exact_int_def)
  then have a: "list_all no_NaN [Push (fromInt 100) (fromInt 0), Push (fromInt 101) (fromInt 1),
      Expire (fromInt 1)]" by simp
  from c have e: "\<exists>s0. tw_new (fromInt 1) = Inr s0" ..
  from refinement_without_NaN[OF c a] e a show ?thesis by (intro conjI)
qed

text \<open>
  Claim C3 as stated fails, in two ways. First, the array version evicts while
  \<open>timestamp < cutoff\<close>, the circular version until \<open>timestamp >= cutoff\<close>; on a NaN
  timestamp both tests are false, so after \<open>push(100, NaN)\<close> and \<open>expire(0)\<close> the array
  version keeps the sample and the circular version has evicted it. Second, not every
  initial capacity gives a circular version at all: its constructor raises a RangeError
  for the capacities \<open>2^32\<close>, \<open>2.5\<close> and NaN, where the array version, which has no
  capacity, answers every query.
\<close>

theorem refinement_counterexample:
  "map_sum id tw_size (tw_session (fromInt 4) [Push (fromInt 100) NaN, Expire (fromInt 0)]) =
     Inr 0 \<and>
   arr_size (arr_run [Push (fromInt 100) NaN, Expire (fromInt 0)] arr_new) = 1 \<and>
   map_sum id tw_getExpiredValues
     (tw_session (fromInt 4) [Push (fromInt 100) NaN, Expire (fromInt 0)]) =
     Inr [\<lparr>price = fromInt 100, timestamp = NaN\<rparr>] \<and>
   arr_getExpiredValues (arr_run [Push (fromInt 100) NaN, Expire (fromInt 0)] arr_new) = [] \<and>
   map_sum id tw_size (tw_session (fromInt 4294967296) []) = Inl RangeError \<and>
   map_sum id tw_size (tw_session (Fin (5 * (ulps div 2))) []) = Inl RangeError \<and>
   map_sum id tw_size (tw_session NaN []) = Inl RangeError \<and>
   arr_size (arr_run [] arr_new) = 0"
proof -
  let ?ops = "[Push (fromInt 100) NaN, Expire (fromInt 0)]"
  obtain s where s: "tw_session (fromInt 4) ?ops = Inr s" "sim (ref_run ?ops arr_new) s"
    using session_int[of 4] by auto
  have "tw_size s = 0"
    using sim_size[OF s(2)] by (simp add: NaN_timestamp_circular arr_size_def)
  moreover have "tw_getExpiredValues s = [\<lparr>price = fromInt 100, timestamp = NaN\<rparr>]"
    using sim_getExpiredValues[OF s(2)]
    by (simp add: NaN_timestamp_circular arr_getExpiredValues_def)
  moreover have "arr_size (arr_run [] arr_new) = 0"
    by (simp add: arr_run_def arr_new_def arr_size_def)
  ultimately show ?thesis
    unfolding s(1)
    by (simp add: NaN_timestamp_array arr_size_def arr_getExpiredValues_def tw_session_def
        constructor_raises)
qed

text \<open>
  Claim C4. Growth is transparent. Take any reachable buffer, after any pushes and
  expires, so that its ring may start anywhere and wrap around; let its live values be
  \<open>vs\<close>. After any further sequence of pushes \<open>getValues()\<close> is \<open>vs\<close> followed by the
  pushed values in push order, \<open>getHistory()\<close> is the former history followed by the
  pushed samples, and \<open>size()\<close> is their total number, however often the buffer was
  reallocated on the way. On a fresh buffer this is: \<open>n\<close> pushes give the \<open>n\<close> values
  in push order.
\<close>

theorem growth_transparency:
  assumes "tw_session cap ops = Inr s" and "tw_getValues s = Inr vs"
  shows "\<exists>s'. tw_run (map (\<lambda>(v, t). Push v t) samples) s = Inr s' \<and>
           tw_getValues s' = Inr (vs @ map fst samples) \<and>
           tw_getHistory s' =
             tw_getHistory s @ map (\<lambda>(v, t). Some \<lparr>price = v, timestamp = t\<rparr>) samples \<and>
           tw_size s' = length vs + length samples"
proof -
  let ?pushes = "map (\<lambda>(v, t). Push v t) samples"
  let ?a = "ref_run ops arr_new"
  have sim: "sim ?a s" using assms(1) by (rule session_sim)
  obtain s' where s': "tw_run ?pushes s = Inr s'" "sim (ref_run ?pushes ?a) s'"
    using sim_run[OF sim] by blast
  have d: "data_arr (ref_run ?pushes ?a) =
      data_arr ?a @ map (\<lambda>(v, t). \<lparr>price = v, timestamp = t\<rparr>) samples"
    by (rule ref_run_pushes)
  have p: "map (price \<circ> (\<lambda>(v, t). \<lparr>price = v, timestamp = t\<rparr>)) samples = map fst samples"
    by (induction samples) auto
  have h: "map (Some \<circ> (\<lambda>(v, t). \<lparr>price = v, timestamp = t\<rparr>)) samples =
      map (\<lambda>(v, t). Some \<lparr>price = v, timestamp = t\<rparr>) samples"
    by (induction samples) auto
  have vs: "map price (data_arr ?a) = vs"
    using sim_getValues[OF sim] assms(2) by (simp add: arr_getValues_def)
  have "tw_getValues s' = Inr (vs @ map fst samples)"
    using sim_getValues[OF s'(2)] by (simp add: arr_getValues_def d p vs)
  moreover have "tw_getHistory s' =
      tw_getHistory s @ map (\<lambda>(v, t). Some \<lparr>price = v, timestamp = t\<rparr>) samples"
    using sim_getHistory[OF s'(2)] sim_getHistory[OF sim] by (simp add: arr_getHistory_def d h)
  moreover have "tw_size s' = length vs + length samples"
    using sim_size[OF s'(2)] vs[symmetric] by (simp add: arr_size_def d)
  ultimately show ?thesis using s'(1) by (intro exI[of _ s']) simp
qed

text \<open>
  Two instances. The first is the one of the claim: capacity 4 and the five values 100
  to 104 on a fresh buffer. In the second the ring of capacity 4 has been filled and its
  oldest sample expired, so that the head is at index 1; the first further push wraps
  around to index 0 and the second finds the buffer full and grows it from there
  (\<open>growth_occurs\<close> shows the two rings).
\<close>

theorem growth_transparency_witness:
  "(\<exists>s s'. tw_session (fromInt 4) [] = Inr s \<and> tw_getValues s = Inr [] \<and>
      tw_run [Push (fromInt 100) (fromInt 0), Push (fromInt 101) (fromInt 1000),
              Push (fromInt 102) (fromInt 2000), Push (fromInt 103) (fromInt 3000),
              Push (fromInt 104) (fromInt 4000)] s = Inr s' \<and>
      tw_getValues s' = Inr [fromInt 100, fromInt 101, fromInt 102, fromInt 103, fromInt 104] \<and>
      tw_size s' = 5) \<and>
   (\<exists>s s'. tw_session (fromInt 4) [Push (fromInt 10) (fromInt 0), Push (fromInt 20) (fromInt 1),
        Push (fromInt 30) (fromInt 2), Push (fromInt 40) (fromInt 3), Expire (fromInt 1)] = Inr s \<and>
      tw_getValues s = Inr [fromInt 20, fromInt 30, fromInt 40] \<and>
      tw_run [Push (fromInt 50) (fromInt 4), Push (fromInt 60) (fromInt 5)] s = Inr s' \<and>
      tw_getValues s' = Inr [fromInt 20, fromInt 30, fromInt 40, fromInt 50, fromInt 60] \<and>
      tw_size s' = 5)"
proof -
  obtain s where a: "tw_session (fromInt 4) [] = Inr s" and sim: "sim (ref_run [] arr_new) s"
    using session_int[of 4] by auto
  have b: "tw_getValues s = Inr []"
    using sim_getValues[OF sim] by (simp add: arr_getValues_def ref_run_def arr_new_def)
  from growth_transparency[OF a b, of "[(fromInt 100, fromInt 0), (fromInt 101, fromInt 1000),
      (fromInt 102, fromInt 2000), (fromInt 103, fromInt 3000), (fromInt 104, fromInt 4000)]"]
  obtain s' where
    "tw_run [Push (fromInt 100) (fromInt 0), Push (fromInt 101) (fromInt 1000),
              Push (fromInt 102) (fromInt 2000), Push (fromInt 103) (fromInt 3000),
              Push (fromInt 104) (fromInt 4000)] s = Inr s' \<and>
      tw_getValues s' = Inr [fromInt 100, fromInt 101, fromInt 102, fromInt 103, fromInt 104] \<and>
      tw_size s' = 5"
    by auto
  with a b have first: "\<exists>s s'. tw_session (fromInt 4) [] = Inr s \<and> tw_getValues s = Inr [] \<and>
      tw_run [Push (fromInt 100) (fromInt 0), Push (fromInt 101) (fromInt 1000),
              Push (fromInt 102) (fromInt 2000), Push (fromInt 103) (fromInt 3000),
              Push (fromInt 104) (fromInt 4000)] s = Inr s' \<and>
      tw_getValues s' = Inr [fromInt 100, fromInt 101, fromInt 102, fromInt 103, fromInt 104] \<and>
      tw_size s' = 5"
    by (intro exI[of _ s] exI[of _ s']) simp
  let ?ops = "[Push (fromInt 10) (fromInt 0), Push (fromInt 20) (fromInt 1),
        Push (fromInt 30) (fromInt 2), Push (fromInt 40) (fromInt 3), Expire (fromInt 1)]"
  obtain t where c: "tw_session (fromInt 4) ?ops = Inr t" and simt: "sim (ref_run ?ops arr_new) t"
    using session_int[of 4] by auto
  have d: "tw_getValues t = Inr [fromInt 20, fromInt 30, fromInt 40]"
    using sim_getValues[OF simt] by (simp add: arr_getValues_def wrapping_run)
  from growth_transparency[OF c d, of "[(fromInt 50, fromInt 4), (fromInt 60, fromInt 5)]"]
  obtain t' where
    "tw_run [Push (fromInt 50) (fromInt 4), Push (fromInt 60) (fromInt 5)] t = Inr t' \<and>
      tw_getValues t' = Inr [fromInt 20, fromInt 30, fromInt 40, fromInt 50, fromInt 60] \<and>
      tw_size t' = 5"
    by auto
  with c d have second: "\<exists>s s'. tw_session (fromInt 4) ?ops = Inr s \<and>
      tw_getValues s = Inr [fromInt 20, fromInt 30, fromInt 40] \<and>
      tw_run [Push (fromInt 50) (fromInt 4), Push (fromInt 60) (fromInt 5)] s = Inr s' \<and>
      tw_getValues s' = Inr [fromInt 20, fromInt 30, fromInt 40, fromInt 50, fromInt 60] \<and>
      tw_size s' = 5"
    by (intro exI[of _ t] exI[of _ t']) simp
  from first second show ?thesis by (rule conjI)
qed

text \<open>
  Claim C5. \<open>getAverage()\<close> is absent exactly when \<open>size()\<close> is 0; otherwise it is the
  quotient of \<open>getSum()\<close> by \<open>size()\<close>, as the one division delivers it.
\<close>

theorem getAverage_spec:
  "(tw_getAverage s = None \<longleftrightarrow> tw_size s = 0) \<and>
   (tw_size s \<noteq> 0 \<longrightarrow> tw_getAverage s = Some (div_count (tw_getSum s) (tw_size s)))"
  by (simp add: tw_getAverage_def tw_getSum_def Let_def)

theorem getAverage_spec_witness:
  "\<exists>s. tw_session (fromInt 4) [Push (fromInt 100) (fromInt 0)] = Inr s \<and> tw_size s \<noteq> 0 \<and>
     tw_getAverage s = Some (div_count (tw_getSum s) (tw_size s))"
proof -
  let ?ops = "[Push (fromInt 100) (fromInt 0)]"
  obtain s where a: "tw_session (fromInt 4) ?ops = Inr s" and sim: "sim (ref_run ?ops arr_new) s"
    using session_int[of 4] by auto
  have b: "tw_size s \<noteq> 0"
    using sim_size[OF sim] by (simp add: arr_size_def one_push_run)
  with getAverage_spec[of s] a show ?thesis by (intro exI[of _ s]) simp
qed



text \<open>
  Claim C7, as amended. Push performs no validation: for every value and timestamp,
  NaN and the infinities included, it succeeds on every reachable buffer, appends the
  sample and adds the value to the running sum; a value that is not finite leaves a
  running sum that is not finite.
\<close>

theorem push_accepts_every_number:
  assumes "tw_new cap = Inr s0"
  shows "\<exists>s s'. tw_session cap ops = Inr s \<and> tw_apply (Push v t) s = Inr s' \<and>
      tw_size s' = tw_size s + 1 \<and> tw_getSum s' = tw_getSum s + v \<and>
      tw_getLatestPrice s' = Some v \<and> (\<not> isFinite v \<longrightarrow> \<not> isFinite (tw_getSum s'))"
proof -
  let ?a = "ref_run ops arr_new"
  obtain s where s: "tw_session cap ops = Inr s" "sim ?a s"
    using reachable[OF assms] by blast
  let ?s' = "tw_push v t s"
  have sim': "sim (arr_push v t ?a) ?s'" using s(2) by (rule sim_push)
  have "tw_size ?s' = tw_size s + 1"
    using sim_size[OF sim'] sim_size[OF s(2)] by (simp add: arr_size_def arr_push_def Let_def)
  moreover have sm: "tw_getSum ?s' = tw_getSum s + v"
    by (simp add: tw_getSum_def tw_push_def Let_def)
  moreover have "tw_getLatestPrice ?s' = Some v"
    using sim_getLatestPrice[OF sim'] by (simp add: arr_getLatestPrice_def arr_push_def Let_def)
  moreover have "\<not> isFinite v \<longrightarrow> \<not> isFinite (tw_getSum ?s')"
    unfolding sm by (cases "tw_getSum s"; cases v) (simp_all add: isFinite_def)
  moreover have "tw_apply (Push v t) s = Inr ?s'" by simp
  ultimately show ?thesis using s(1) by (intro exI[of _ s] exI[of _ ?s']) simp
qed

theorem push_accepts_every_number_witness:
  "(\<exists>s0. tw_new (fromInt 4) = Inr s0) \<and> \<not> isFinite NaN \<and>
   (\<exists>s s'. tw_session (fromInt 4) [] = Inr s \<and> tw_apply (Push NaN (fromInt 0)) s = Inr s' \<and>
      tw_size s' = tw_size s + 1 \<and> tw_getSum s' = tw_getSum s + NaN \<and>
      tw_getLatestPrice s' = Some NaN \<and> \<not> isFinite (tw_getSum s'))"
proof -
  obtain s0 where c: "tw_new (fromInt 4) = Inr s0" using constructs[of 4] by auto
  have n: "\<not> isFinite NaN" by (simp add: isFinite_def)
  from c have e: "\<exists>s0. tw_new (fromInt 4) = Inr s0" ..
  from push_accepts_every_number[OF c, of "[]" NaN "fromInt 0"] have
    "\<exists>s s'. tw_session (fromInt 4) [] = Inr s \<and> tw_apply (Push NaN (fromInt 0)) s = Inr s' \<and>
      tw_size s' = tw_size s + 1 \<and> tw_getSum s' = tw_getSum s + NaN \<and>
      tw_getLatestPrice s' = Some NaN \<and> \<not> isFinite (tw_getSum s')"
    by (simp only: n simp_thms)
  with e n show ?thesis by (intro conjI)
qed

text \<open>
  Claim C7 as stated fails: \<open>push(NaN, 0)\<close> returns normally with the sample stored and
  the running sum NaN, and \<open>push(100, Infinity)\<close> returns normally as well.
\<close>

theorem push_rejection_counterexample:
  "map_sum id tw_getSum (tw_session (fromInt 4) [Push NaN (fromInt 0)]) = Inr NaN \<and>
   map_sum id tw_size (tw_session (fromInt 4) [Push NaN (fromInt 0)]) = Inr 1 \<and>
   map_sum id tw_size (tw_session (fromInt 4) [Push (fromInt 100) PosInf]) = Inr 1"
proof -
  obtain s where s: "tw_session (fromInt 4) [Push NaN (fromInt 0)] = Inr s"
      "sim (ref_run [Push NaN (fromInt 0)] arr_new) s"
    using session_int[of 4] by auto
  obtain u where u: "tw_session (fromInt 4) [Push (fromInt 100) PosInf] = Inr u"
      "sim (ref_run [Push (fromInt 100) PosInf] arr_new) u"
    using session_int[of 4] by auto
  have "tw_getSum s = NaN"
    using sim_getSum[OF s(2)] by (simp add: arr_getSum_def one_push_run zero_number_def)
  moreover have "tw_size s = 1"
    using sim_size[OF s(2)] by (simp add: arr_size_def one_push_run)
  moreover have "tw_size u = 1"
    using sim_size[OF u(2)] by (simp add: arr_size_def one_push_run)
  ultimately show ?thesis unfolding s(1) u(1) by simp
qed

text \<open>
  Claim C8. A buffer with no live and no expired samples, however it was reached,
  answers: latest price and average absent, sum 0, and the three histories empty.
\<close>

theorem empty_buffer_queries:
  assumes "tw_session cap ops = Inr s" "tw_size s = 0" "tw_getExpiredValues s = []"
  shows "tw_getLatestPrice s = None \<and> tw_getAverage s = None \<and> tw_getSum s = 0 \<and>
         tw_getHistory s = [] \<and> tw_getValues s = Inr [] \<and> tw_getExpiredValues s = []"
proof -
  let ?a = "ref_run ops arr_new"
  have sim: "sim ?a s" using assms(1) by (rule session_sim)
  have "data_arr ?a = []"
    using sim_size[OF sim] assms(2) by (simp add: arr_size_def)
  moreover have "expiredData_arr ?a = []"
    using sim_getExpiredValues[OF sim] assms(3) by (simp add: arr_getExpiredValues_def)
  ultimately have a: "?a = arr_new" by (rule ref_run_untouched)
  show ?thesis
    using sim_getLatestPrice[OF sim] sim_getAverage[OF sim] sim_getSum[OF sim]
      sim_getHistory[OF sim] sim_getValues[OF sim] sim_getExpiredValues[OF sim]
    unfolding a
    by (simp add: arr_new_def arr_getLatestPrice_def arr_getAverage_def arr_getSum_def
        arr_getHistory_def arr_getValues_def arr_getExpiredValues_def arr_size_def)
qed

theorem empty_buffer_queries_witness:
  "\<exists>s. tw_session (fromInt 4) [] = Inr s \<and> tw_size s = 0 \<and> tw_getExpiredValues s = [] \<and>
     tw_getLatestPrice s = None \<and> tw_getAverage s = None \<and> tw_getSum s = 0 \<and>
     tw_getHistory s = [] \<and> tw_getValues s = Inr []"
proof -
  obtain s where a: "tw_session (fromInt 4) [] = Inr s" and sim: "sim (ref_run [] arr_new) s"
    using session_int[of 4] by auto
  have b: "tw_size s = 0"
    using sim_size[OF sim] by (simp add: arr_size_def ref_run_def arr_new_def)
  have c: "tw_getExpiredValues s = []"
    using sim_getExpiredValues[OF sim]
    by (simp add: arr_getExpiredValues_def ref_run_def arr_new_def)
  from empty_buffer_queries[OF a b c] a b c show ?thesis by (intro exI[of _ s]) simp
qed

text \<open>
  Claim C9. On every reachable buffer each of the seven queries returns normally and
  leaves the state as it found it: running a query and then any further calls gives
  those calls the results and the final state they have without the query.
\<close>

theorem query_purity:
  assumes "tw_session cap ops = Inr s"
  shows "\<exists>a. tw_query q s = Inr (a, s) \<and>
           (\<forall>cs. tw_calls (Ask q # cs) s = prepend a (tw_calls cs s))"
proof -
  have sim: "sim (ref_run ops arr_new) s" using assms by (rule session_sim)
  have "\<exists>a. tw_query q s = Inr (a, s)"
    by (cases q) (simp_all add: sim_getValues[OF sim])
  then obtain a where a: "tw_query q s = Inr (a, s)" ..
  have "tw_calls (Ask q # cs) s = prepend a (tw_calls cs s)" for cs
    by (simp add: a)
  with a show ?thesis by (intro exI[of _ a]) simp
qed

theorem query_purity_witness:
  "\<exists>s a. tw_session (fromInt 4) [Push (fromInt 100) (fromInt 0)] = Inr s \<and>
     tw_query GetValues s = Inr (a, s) \<and>
     (\<forall>cs. tw_calls (Ask GetValues # cs) s = prepend a (tw_calls cs s))"
proof -
  obtain s where s: "tw_session (fromInt 4) [Push (fromInt 100) (fromInt 0)] = Inr s"
    using session_int[of 4] by auto
  from query_purity[OF s, of GetValues] obtain a where
    "tw_query GetValues s = Inr (a, s) \<and>
     (\<forall>cs. tw_calls (Ask GetValues # cs) s = prepend a (tw_calls cs s))" ..
  with s show ?thesis by (intro exI[of _ s] exI[of _ a]) simp
qed

end
